theory Spec2Isabelle
  imports Complex_Main "HOL-Library.Word" "HOL-Library.Log_Nat" "HOL-Library.Monad_Syntax"
begin

unbundle bit_operations_syntax

section \<open>Data model of \<^verbatim>\<open>src/main.cpp\<close>\<close>

text \<open>
  The sketch keeps all of its state in globals. The record \<open>machine\<close> below holds these
  globals together with the three devices the sketch talks to: the receive queue of the
  software serial port (\<open>sensor\<close>), the millisecond timer (\<open>millis\<close>), the lines printed
  on the debug port (\<open>serial\<close>) and the four user registers of the emulated BAE910.

  A C array is a function from offsets to bytes; every access checks the offset against
  the array's size, and an access outside the array is undefined behaviour of the C
  program, which the model returns as \<open>None\<close>.
\<close>

type_synonym byte = "8 word"

definition START_SEQUENCE :: "byte list" where
  "START_SEQUENCE = [0x1B, 0x1B, 0x1B, 0x1B, 0x01, 0x01, 0x01, 0x01]"

definition END_SEQUENCE :: "byte list" where
  "END_SEQUENCE = [0x1B, 0x1B, 0x1B, 0x1B, 0x1A]"

definition BUFFER_SIZE :: int where
  "BUFFER_SIZE = 3840"

definition READ_TIMEOUT :: int where
  "READ_TIMEOUT = 30"

record metric_value =
  mv_value :: "64 word"
  mv_unit :: byte
  mv_scaler :: byte

definition METRICS :: "(string \<times> byte list) list" where
  "METRICS =
    [(''power_in'', [0x77, 0x07, 0x01, 0x00, 0x01, 0x08, 0x00, 0xFF]),
     (''power_out'', [0x77, 0x07, 0x01, 0x00, 0x02, 0x08, 0x00, 0xFF]),
     (''power_current'', [0x77, 0x07, 0x01, 0x00, 0x10, 0x07, 0x00, 0xFF])]"

definition METRIC_LENGTH :: nat where
  "METRIC_LENGTH = length METRICS"

definition START_SEQUENCE_LENGTH :: int where
  "START_SEQUENCE_LENGTH = int (length START_SEQUENCE)"

definition END_SEQUENCE_LENGTH :: int where
  "END_SEQUENCE_LENGTH = int (length END_SEQUENCE)"

text \<open>The four state functions, as values of the function pointer \<open>state\<close>.\<close>

datatype state_fn =
  ST_wait_for_start_sequence
  | ST_read_message
  | ST_read_checksum
  | ST_process_message

text \<open>The lines the sketch prints (\<open>DEBUG\<close> is false, so the debug lines never appear).\<close>

datatype serial_line =
  StateIs state_fn
  | BufferWillOverflow
  | ChecksumMismatch
  | FoundMetric nat
  | PublishedMetric nat "64 word" byte byte
  | IgnoringMetric nat
  | DidNotReceive

record machine =
  buffer :: "nat \<Rightarrow> byte"
  position :: int
  last_state_reset :: "32 word"
  bytes_until_checksum :: byte
  state :: "state_fn option"
  sensor :: "byte list"
  millis :: "32 word"
  serial :: "serial_line list"
  userm :: "32 word"
  usern :: "32 word"
  usero :: "32 word"
  userp :: "32 word"

definition in_buffer :: "int \<Rightarrow> bool" where
  "in_buffer i \<longleftrightarrow> 0 \<le> i \<and> i < BUFFER_SIZE"

definition println :: "serial_line \<Rightarrow> machine \<Rightarrow> machine" where
  "println l m = m\<lparr>serial := serial m @ [l]\<rparr>"

section \<open>The framer\<close>

definition set_state :: "state_fn \<Rightarrow> machine \<Rightarrow> machine" where
  "set_state new_state m =
    (case new_state of
       ST_wait_for_start_sequence \<Rightarrow>
         (println (StateIs new_state) m)
           \<lparr>position := 0, last_state_reset := millis m, state := Some new_state\<rparr>
     | ST_read_message \<Rightarrow>
         (println (StateIs new_state) m)\<lparr>state := Some new_state\<rparr>
     | ST_read_checksum \<Rightarrow>
         (println (StateIs new_state) m)\<lparr>bytes_until_checksum := 3, state := Some new_state\<rparr>
     | ST_process_message \<Rightarrow>
         (println (StateIs new_state) m)\<lparr>state := Some new_state\<rparr>)"

text \<open>\<open>reset(message)\<close>: the message is printed when there is one.\<close>

definition reset :: "serial_line option \<Rightarrow> machine \<Rightarrow> machine" where
  "reset message m =
    set_state ST_wait_for_start_sequence
      (case message of None \<Rightarrow> m | Some l \<Rightarrow> println l m)"

text \<open>
  The loops over \<open>data_available()\<close>/\<open>data_read()\<close> recurse over the receive queue:
  a loop takes the queue and returns what it has not read, and the state function
  stores that back in \<open>sensor\<close>.
\<close>

fun wait_for_start_sequence_loop ::
  "byte list \<Rightarrow> machine \<Rightarrow> (byte list \<times> machine) option" where
  "wait_for_start_sequence_loop [] m = Some ([], m)"
| "wait_for_start_sequence_loop (b # bs) m =
    (if \<not> in_buffer (position m) \<or> START_SEQUENCE_LENGTH \<le> position m then None
     else
       let m1 = m\<lparr>buffer := (buffer m)(nat (position m) := b)\<rparr>;
           m2 = m1\<lparr>position :=
                  (if buffer m1 (nat (position m1)) = START_SEQUENCE ! nat (position m1)
                   then position m1 + 1 else 0)\<rparr>
       in if position m2 = START_SEQUENCE_LENGTH
          then Some (bs, set_state ST_read_message m2)
          else wait_for_start_sequence_loop bs m2)"

definition wait_for_start_sequence :: "machine \<Rightarrow> machine option" where
  "wait_for_start_sequence m =
    do {
      (rest, m1) \<leftarrow> wait_for_start_sequence_loop (sensor m) m;
      Some (m1\<lparr>sensor := rest\<rparr>)
    }"

text \<open>
  The backward comparison of the buffer's tail with the end sequence: the \<open>for\<close> loop of
  \<open>read_message\<close>, started at \<open>i\<close>. \<open>Some True\<close> is the \<open>return\<close> after the end sequence
  was found, \<open>Some False\<close> the \<open>break\<close>.
\<close>

function end_sequence_loop :: "int \<Rightarrow> machine \<Rightarrow> bool option" where
  "end_sequence_loop i m =
    (let last_index_of_end_seq = END_SEQUENCE_LENGTH - 1 in
     if 0 \<le> i \<and> i \<le> last_index_of_end_seq then
       (if \<not> in_buffer (position m - (i + 1)) then None
        else if END_SEQUENCE ! nat (last_index_of_end_seq - i)
                  \<noteq> buffer m (nat (position m - (i + 1)))
        then Some False
        else if i = last_index_of_end_seq then Some True
        else end_sequence_loop (i + 1) m)
     else Some False)"
  by pat_completeness auto
termination
  by (relation "measure (\<lambda>(i, m). nat (END_SEQUENCE_LENGTH - i))") auto

fun read_message_loop :: "byte list \<Rightarrow> machine \<Rightarrow> (byte list \<times> machine) option" where
  "read_message_loop [] m = Some ([], m)"
| "read_message_loop (b # bs) m =
    (if position m + 3 = BUFFER_SIZE
     then Some (b # bs, reset (Some BufferWillOverflow) m)
     else if \<not> in_buffer (position m) then None
     else
       let m1 = m\<lparr>buffer := (buffer m)(nat (position m) := b), position := position m + 1\<rparr>
       in case end_sequence_loop 0 m1 of
            None \<Rightarrow> None
          | Some True \<Rightarrow> Some (bs, set_state ST_read_checksum m1)
          | Some False \<Rightarrow> read_message_loop bs m1)"

definition read_message :: "machine \<Rightarrow> machine option" where
  "read_message m =
    do {
      (rest, m1) \<leftarrow> read_message_loop (sensor m) m;
      Some (m1\<lparr>sensor := rest\<rparr>)
    }"

fun read_checksum_loop :: "byte list \<Rightarrow> machine \<Rightarrow> (byte list \<times> machine) option" where
  "read_checksum_loop [] m = Some ([], m)"
| "read_checksum_loop (b # bs) m =
    (if 0 < bytes_until_checksum m then
       (if \<not> in_buffer (position m) then None
        else read_checksum_loop bs
               (m\<lparr>buffer := (buffer m)(nat (position m) := b),
                  position := position m + 1,
                  bytes_until_checksum := bytes_until_checksum m - 1\<rparr>))
     else Some (b # bs, m))"

definition read_checksum :: "machine \<Rightarrow> machine option" where
  "read_checksum m =
    do {
      (rest, m1) \<leftarrow> read_checksum_loop (sensor m) m;
      let m2 = m1\<lparr>sensor := rest\<rparr>;
      Some (if bytes_until_checksum m2 = 0 then set_state ST_process_message m2 else m2)
    }"

section \<open>Library functions the sketch calls\<close>

text \<open>
  Modelled from the spec: \<open>CRC16.x25\<close> belongs to the FastCRC library, which is not
  part of the repository. The spec names the algorithm, CRC-16/X-25: the reflected
  polynomial \<open>0x8408\<close>, initial value \<open>0xFFFF\<close>, final complement.
\<close>

definition crc_shift :: "16 word \<Rightarrow> 16 word" where
  "crc_shift c = (if bit c 0 then drop_bit 1 c XOR 0x8408 else drop_bit 1 c)"

definition crc_update :: "16 word \<Rightarrow> byte \<Rightarrow> 16 word" where
  "crc_update c b = (crc_shift ^^ 8) (c XOR ucast b)"

definition x25 :: "byte list \<Rightarrow> 16 word" where
  "x25 bs = foldl crc_update 0xFFFF bs XOR 0xFFFF"

text \<open>
  Modelled from the spec: \<open>memmem_P\<close> is the C library's search for the first occurrence
  of the needle in the first \<open>hlen\<close> bytes of the haystack (``an exact substring search
  over the full datagram bytes''); the result is the offset of the match.
\<close>

fun memmem_scan :: "byte list \<Rightarrow> byte list \<Rightarrow> nat \<Rightarrow> nat option" where
  "memmem_scan needle [] k = (if needle = [] then Some k else None)"
| "memmem_scan needle (x # xs) k =
    (if take (length needle) (x # xs) = needle then Some k
     else memmem_scan needle xs (Suc k))"

definition memmem_P :: "(nat \<Rightarrow> byte) \<Rightarrow> nat \<Rightarrow> byte list \<Rightarrow> nat option" where
  "memmem_P haystack hlen needle = memmem_scan needle (map haystack [0..<hlen]) 0"

subsection \<open>Double precision arithmetic\<close>

text \<open>
  The published number is computed in \<open>double\<close>. A finite double is a rational number;
  an operation returns the exact result rounded to 53 significant bits, ties to even
  (IEEE 754 binary64, round to nearest). The operands of the sketch are a 64-bit integer,
  a power of ten with an exponent between -128 and 127, and 1000, so no result leaves the
  range of the normal doubles, and exponent overflow and underflow do not arise.
\<close>

definition two_powi :: "int \<Rightarrow> rat" where
  "two_powi e = (if 0 \<le> e then 2 ^ nat e else 1 / 2 ^ nat (- e))"

definition ilog2 :: "rat \<Rightarrow> int" where
  "ilog2 q =
    (if 1 \<le> \<bar>q\<bar> then bitlen \<lfloor>\<bar>q\<bar>\<rfloor> - 1 else - bitlen (\<lceil>1 / \<bar>q\<bar>\<rceil> - 1))"

definition round_half_even :: "rat \<Rightarrow> int" where
  "round_half_even x =
    (let f = \<lfloor>x\<rfloor>; r = x - of_int f in
     if r < 1 / 2 then f
     else if 1 / 2 < r then f + 1
     else if even f then f else f + 1)"

definition round_double :: "rat \<Rightarrow> rat" where
  "round_double q =
    (if q = 0 then 0
     else let ulp = two_powi (ilog2 q - 52)
          in of_int (round_half_even (q / ulp)) * ulp)"

definition double_of_int64 :: "64 word \<Rightarrow> rat" where
  "double_of_int64 v = round_double (of_int (sint v))"

definition double_mult :: "rat \<Rightarrow> rat \<Rightarrow> rat" where
  "double_mult x y = round_double (x * y)"

text \<open>
  Modelled from the spec: \<open>pow\<close> is the C library's; \<open>pow(10, scaler)\<close> is taken to be
  the double nearest to the power of ten (``\<open>10^scaler\<close>''). The exponent is the
  \<open>int8_t\<close> scaler.
\<close>

definition pow10 :: "byte \<Rightarrow> rat" where
  "pow10 s =
    round_double (if 0 \<le> sint s then 10 ^ nat (sint s) else 1 / 10 ^ nat (- sint s))"

text \<open>
  The cast \<open>(uint32_t)\<close> of a double drops the fraction; when the result does not fit
  \<open>uint32_t\<close> the behaviour is undefined. Storing the \<open>uint32_t\<close> in the \<open>int32_t\<close>
  variable and then in the register keeps the 32 bits.
\<close>

definition double_to_uint32 :: "rat \<Rightarrow> 32 word option" where
  "double_to_uint32 x =
    (if - 1 < x \<and> x < 2 ^ 32
     then Some (word_of_int (if 0 \<le> x then \<lfloor>x\<rfloor> else \<lceil>x\<rceil>))
     else None)"

section \<open>process_message\<close>

text \<open>
  Two pieces of memory that \<open>process_message\<close> reads are not determined by the sketch:
  \<^item> \<open>values_uninit\<close>: the local array \<open>values\<close> is not initialised, so an entry that the
    parse loop does not write holds what the stack held;
  \<^item> \<open>pattern_front i\<close>: the needle handed to \<open>memmem_P\<close> is
    \<open>&METRICS[i].pattern.front()\<close>, the address of the first element of a
    \<open>std::list\<close>, read for \<open>pattern.size()\<close> bytes. The elements of a list are not
    contiguous, so only the first of these bytes is the pattern's; \<open>intended_ram\<close> is the
    memory in which the bytes are the pattern, as the author has it in mind.

  The walk after a pattern (\<open>parse_metric\<close>) and the publication of a value
  (\<open>publish_metrics\<close>) read neither of the two; what is stated about them holds whatever
  this memory is.
\<close>

record ram =
  pattern_front :: "nat \<Rightarrow> byte list"
  values_uninit :: "nat \<Rightarrow> metric_value"

definition intended_ram :: "(nat \<Rightarrow> metric_value) \<Rightarrow> ram" where
  "intended_ram vs = \<lparr>pattern_front = (\<lambda>i. snd (METRICS ! i)), values_uninit = vs\<rparr>"

definition peek :: "machine \<Rightarrow> nat \<Rightarrow> byte option" where
  "peek m cp = (if int cp < BUFFER_SIZE then Some (buffer m cp) else None)"

text \<open>The loop \<open>while (--nlen) { uvalue <<= 8; uvalue |= *cp++; }\<close> on the \<open>uint8_t nlen\<close>.\<close>

function value_loop :: "byte \<Rightarrow> nat \<Rightarrow> 64 word \<Rightarrow> machine \<Rightarrow> 64 word option" where
  "value_loop nlen cp uvalue m =
    (let nlen1 = nlen - 1 in
     if nlen1 = 0 then Some uvalue
     else do {
       b \<leftarrow> peek m cp;
       value_loop nlen1 (cp + 1) (push_bit 8 uvalue OR ucast b) m
     })"
  by pat_completeness auto
termination
proof (relation "measure (\<lambda>(nlen, cp, uvalue, m). unat (nlen - 1))")
  fix nlen :: byte and cp :: nat and uvalue :: "64 word" and m :: machine
    and nlen1 :: byte and b :: byte
  assume nlen1: "nlen1 = nlen - 1" and "nlen1 \<noteq> 0"
  from \<open>nlen1 \<noteq> 0\<close> have "unat (nlen1 - 1) < unat nlen1"
    by (simp add: unat_minus_one unat_gt_0)
  then show "((nlen1, cp + 1, push_bit 8 uvalue OR ucast b, m), (nlen, cp, uvalue, m))
          \<in> measure (\<lambda>(nlen, cp, uvalue, m). unat (nlen - 1))"
    unfolding nlen1 by simp
qed simp

text \<open>
  The walk over the sub-fields that follow a pattern found at offset \<open>found_at\<close>. In
  \<open>type == 0x50 ? (int64_t)uvalue : uvalue\<close> both operands are converted to the common
  type \<open>uint64_t\<close> and the result is stored in the \<open>int64_t\<close> field: the 64 bits are the
  same in both branches.
\<close>

definition parse_metric :: "machine \<Rightarrow> nat \<Rightarrow> nat \<Rightarrow> metric_value option" where
  "parse_metric m found_at pattern_size =
    do {
      let cp = found_at + pattern_size;
      status \<leftarrow> peek m cp;
      let cp = cp + unat (status AND 0x0f);
      time \<leftarrow> peek m cp;
      let cp = cp + unat (time AND 0x0f);
      h \<leftarrow> peek m cp;
      let len = h AND 0x0f;
      u \<leftarrow> peek m (cp + 1);
      let cp = cp + unat len;
      h \<leftarrow> peek m cp;
      let len = h AND 0x0f;
      s \<leftarrow> peek m (cp + 1);
      let cp = cp + unat len;
      h \<leftarrow> peek m cp;
      let type = h AND 0x70;
      let len = h AND 0x0f;
      let cp = cp + 1;
      uvalue \<leftarrow> value_loop len cp 0 m;
      Some \<lparr>mv_value = (if type = 0x50 then uvalue else uvalue), mv_unit = u, mv_scaler = s\<rparr>
    }"

fun parse_metrics ::
  "(nat \<Rightarrow> byte list) \<Rightarrow> nat list \<Rightarrow> machine \<Rightarrow> (nat \<Rightarrow> metric_value)
    \<Rightarrow> (machine \<times> (nat \<Rightarrow> metric_value)) option" where
  "parse_metrics pf [] m values = Some (m, values)"
| "parse_metrics pf (i # is) m values =
    (case memmem_P (buffer m) (nat (position m)) (pf i) of
       None \<Rightarrow> parse_metrics pf is m values
     | Some found_at \<Rightarrow>
         do {
           v \<leftarrow> parse_metric (println (FoundMetric i) m) found_at (length (snd (METRICS ! i)));
           parse_metrics pf is (println (FoundMetric i) m) (values(i := v))
         })"

definition publish_value :: "metric_value \<Rightarrow> 32 word option" where
  "publish_value v =
    double_to_uint32
      (double_mult (double_mult (double_of_int64 (mv_value v)) (pow10 (mv_scaler v))) 1000)"

definition write_slot :: "nat \<Rightarrow> 32 word \<Rightarrow> machine \<Rightarrow> machine option" where
  "write_slot i v m =
    (if i = 0 then Some (m\<lparr>userm := v\<rparr>)
     else if i = 1 then Some (m\<lparr>usern := v\<rparr>)
     else if i = 2 then Some (m\<lparr>usero := v\<rparr>)
     else if i = 3 then Some (m\<lparr>userp := v\<rparr>)
     else None)"

fun publish_metrics :: "nat list \<Rightarrow> (nat \<Rightarrow> metric_value) \<Rightarrow> machine \<Rightarrow> machine option" where
  "publish_metrics [] values m = Some m"
| "publish_metrics (i # is) values m =
    do {
      v \<leftarrow> publish_value (values i);
      (case write_slot i v m of
         None \<Rightarrow> publish_metrics is values (println (IgnoringMetric i) m)
       | Some m1 \<Rightarrow>
           publish_metrics is values
             (println (PublishedMetric i (mv_value (values i)) (mv_unit (values i))
                (mv_scaler (values i))) m1))
    }"

definition calculated_checksum :: "machine \<Rightarrow> int" where
  "calculated_checksum m = uint (x25 (map (buffer m) [0..<nat (position m - 2)]))"

definition given_checksum :: "machine \<Rightarrow> int" where
  "given_checksum m =
    push_bit 8 (uint (buffer m (nat (position m - 1)))) OR uint (buffer m (nat (position m - 2)))"

definition process_message :: "ram \<Rightarrow> machine \<Rightarrow> machine option" where
  "process_message r m =
    (if position m < 2 \<or> BUFFER_SIZE < position m then None
     else if calculated_checksum m \<noteq> given_checksum m
     then Some (reset (Some ChecksumMismatch) m)
     else
       do {
         (m1, values) \<leftarrow>
           parse_metrics (pattern_front r) [0..<METRIC_LENGTH] m (values_uninit r);
         m2 \<leftarrow> publish_metrics [0..<METRIC_LENGTH] values m1;
         Some (reset None m2)
       })"

section \<open>The controller\<close>

definition call_state :: "state_fn \<Rightarrow> ram \<Rightarrow> machine \<Rightarrow> machine option" where
  "call_state s r m =
    (case s of
       ST_wait_for_start_sequence \<Rightarrow> wait_for_start_sequence m
     | ST_read_message \<Rightarrow> read_message m
     | ST_read_checksum \<Rightarrow> read_checksum m
     | ST_process_message \<Rightarrow> process_message r m)"

text \<open>
  \<open>millis() - last_state_reset\<close> is a subtraction of \<open>unsigned long\<close> (32 bits on the
  ESP8266), compared with \<open>READ_TIMEOUT * 1000\<close>. The timer is read once in a tick.
\<close>

definition run_current_state :: "ram \<Rightarrow> machine \<Rightarrow> machine option" where
  "run_current_state r m =
    (case state m of
       None \<Rightarrow> Some m
     | Some s0 \<Rightarrow>
         let m1 = (if word_of_int (READ_TIMEOUT * 1000) < millis m - last_state_reset m
                   then reset None (println DidNotReceive m) else m)
         in (case state m1 of None \<Rightarrow> None | Some s \<Rightarrow> call_state s r m1))"

text \<open>The globals as the program starts, and \<open>setup\<close>.\<close>

definition power_on :: "32 word \<Rightarrow> machine" where
  "power_on t =
    \<lparr>buffer = (\<lambda>_. 0), position = 0, last_state_reset = 0, bytes_until_checksum = 0,
     state = None, sensor = [], millis = t, serial = [],
     userm = 0, usern = 0, usero = 0, userp = 0\<rparr>"

definition setup_sketch :: "machine \<Rightarrow> machine" where
  "setup_sketch m = set_state ST_wait_for_start_sequence m"

text \<open>
  \<open>loop\<close> runs the current state once (the one-wire hub it polls afterwards is outside the
  model); the Arduino core calls \<open>loop\<close> again and again.
\<close>

definition loop_sketch :: "ram \<Rightarrow> machine \<Rightarrow> machine option" where
  "loop_sketch r m = run_current_state r m"

fun ticks :: "nat \<Rightarrow> ram \<Rightarrow> machine \<Rightarrow> machine option" where
  "ticks 0 r m = Some m"
| "ticks (Suc n) r m = do { m1 \<leftarrow> loop_sketch r m; ticks n r m1 }"

text \<open>The environment: bytes arrive in the receive queue, and the timer advances.\<close>

definition feed :: "byte list \<Rightarrow> machine \<Rightarrow> machine" where
  "feed bs m = m\<lparr>sensor := sensor m @ bs\<rparr>"

inductive reachable :: "machine \<Rightarrow> bool" where
  booted: "reachable (setup_sketch (power_on t))"
| arrival: "reachable m \<Longrightarrow> reachable (feed bs m)"
| timer: "reachable m \<Longrightarrow> reachable (m\<lparr>millis := t\<rparr>)"
| tick: "reachable m \<Longrightarrow> loop_sketch r m = Some m' \<Longrightarrow> reachable m'"

section \<open>Example datagrams\<close>

text \<open>
  \<open>frame_empty\<close> has no payload; \<open>frame_power_in\<close> carries the first metric with status
  and time of length one, unit \<open>62 1E\<close>, scaler \<open>52 FF\<close> and value \<open>54 00 03 94\<close>;
  \<open>frame_bare_pattern\<close> carries the first pattern and nothing after it. The last two
  bytes of each are its CRC-16/X-25, low byte first.
\<close>

definition frame_empty :: "byte list" where
  "frame_empty =
    [0x1B, 0x1B, 0x1B, 0x1B, 0x01, 0x01, 0x01, 0x01,
     0x1B, 0x1B, 0x1B, 0x1B, 0x1A, 0x00, 0xC6, 0xE5]"

definition frame_power_in :: "byte list" where
  "frame_power_in =
    [0x1B, 0x1B, 0x1B, 0x1B, 0x01, 0x01, 0x01, 0x01,
     0x77, 0x07, 0x01, 0x00, 0x01, 0x08, 0x00, 0xFF,
     0x01, 0x01, 0x62, 0x1E, 0x52, 0xFF, 0x54, 0x00, 0x03, 0x94,
     0x1B, 0x1B, 0x1B, 0x1B, 0x1A, 0x00, 0x4E, 0xD0]"

definition frame_bare_pattern :: "byte list" where
  "frame_bare_pattern =
    [0x1B, 0x1B, 0x1B, 0x1B, 0x01, 0x01, 0x01, 0x01,
     0x77, 0x07, 0x01, 0x00, 0x01, 0x08, 0x00, 0xFF,
     0x1B, 0x1B, 0x1B, 0x1B, 0x1A, 0x00, 0x1D, 0x32]"

text \<open>\<open>frame_empty\<close> with another fill-count byte and the old checksum.\<close>

definition frame_corrupt :: "byte list" where
  "frame_corrupt =
    [0x1B, 0x1B, 0x1B, 0x1B, 0x01, 0x01, 0x01, 0x01,
     0x1B, 0x1B, 0x1B, 0x1B, 0x1A, 0x01, 0xC6, 0xE5]"

text \<open>
  \<open>frame_claim\<close> carries the first metric followed by the twelve bytes of the spec's
  example; in \<open>frame_unsigned\<close> and \<open>frame_signed\<close> the value field has eight bytes
  \<open>FF\<close> and the header \<open>69\<close> (type \<open>0x60\<close>) and \<open>59\<close> (type \<open>0x50\<close>).
\<close>

definition frame_claim :: "byte list" where
  "frame_claim =
    [0x1B, 0x1B, 0x1B, 0x1B, 0x01, 0x01, 0x01, 0x01,
     0x77, 0x07, 0x01, 0x00, 0x01, 0x08, 0x00, 0xFF,
     0x01, 0x00, 0x01, 0x00, 0x01, 0x1E, 0x01, 0xFF,
     0x59, 0x00, 0x03, 0x94, 0x1B, 0x1B, 0x1B, 0x1B,
     0x1A, 0x00, 0x38, 0x8F]"

definition frame_unsigned :: "byte list" where
  "frame_unsigned =
    [0x1B, 0x1B, 0x1B, 0x1B, 0x01, 0x01, 0x01, 0x01,
     0x77, 0x07, 0x01, 0x00, 0x01, 0x08, 0x00, 0xFF,
     0x01, 0x01, 0x62, 0x1E, 0x52, 0x00, 0x69, 0xFF,
     0xFF, 0xFF, 0xFF, 0xFF, 0xFF, 0xFF, 0xFF, 0x1B,
     0x1B, 0x1B, 0x1B, 0x1A, 0x00, 0xB4, 0x3B]"

definition frame_signed :: "byte list" where
  "frame_signed =
    [0x1B, 0x1B, 0x1B, 0x1B, 0x01, 0x01, 0x01, 0x01,
     0x77, 0x07, 0x01, 0x00, 0x01, 0x08, 0x00, 0xFF,
     0x01, 0x01, 0x62, 0x1E, 0x52, 0x00, 0x59, 0xFF,
     0xFF, 0xFF, 0xFF, 0xFF, 0xFF, 0xFF, 0xFF, 0x1B,
     0x1B, 0x1B, 0x1B, 0x1A, 0x00, 0x89, 0xD4]"


definition no_values :: "nat \<Rightarrow> metric_value" where
  "no_values i = \<lparr>mv_value = 7, mv_unit = 0, mv_scaler = 0\<rparr>"

section \<open>Notions used in the statements\<close>

text \<open>\<open>store f p xs\<close> is the array \<open>f\<close> after the bytes \<open>xs\<close> were written from offset \<open>p\<close> on.\<close>

fun store :: "(nat \<Rightarrow> byte) \<Rightarrow> nat \<Rightarrow> byte list \<Rightarrow> (nat \<Rightarrow> byte)" where
  "store f p [] = f"
| "store f p (x # xs) = store (f(p := x)) (Suc p) xs"

text \<open>
  What holds of the buffer while the start sequence is awaited: the bytes below
  \<open>position\<close> are the part of the start sequence matched so far.
\<close>

definition wait_inv :: "machine \<Rightarrow> bool" where
  "wait_inv m \<longleftrightarrow>
    0 \<le> position m \<and> position m < 8 \<and>
    (\<forall>i < nat (position m). buffer m i = START_SEQUENCE ! i)"

text \<open>What holds of \<open>position\<close> in each state of the framer.\<close>

definition framer_inv :: "machine \<Rightarrow> bool" where
  "framer_inv m \<longleftrightarrow>
    (case state m of
       None \<Rightarrow> False
     | Some ST_wait_for_start_sequence \<Rightarrow> wait_inv m
     | Some ST_read_message \<Rightarrow> 8 \<le> position m \<and> position m + 3 \<le> BUFFER_SIZE
     | Some ST_read_checksum \<Rightarrow>
         8 \<le> position m \<and> position m + uint (bytes_until_checksum m) \<le> BUFFER_SIZE
     | Some ST_process_message \<Rightarrow> 8 \<le> position m \<and> position m \<le> BUFFER_SIZE)"

text \<open>
  The array after noise was read by the start matcher with its cursor at 0: every byte
  went to offset 0.
\<close>

fun after_noise :: "(nat \<Rightarrow> byte) \<Rightarrow> byte list \<Rightarrow> (nat \<Rightarrow> byte)" where
  "after_noise f [] = f"
| "after_noise f (b # bs) = after_noise (f(0 := b)) bs"

text \<open>The five bytes below offset \<open>q\<close> of the array are the end sequence.\<close>

definition tail_is_end :: "(nat \<Rightarrow> byte) \<Rightarrow> nat \<Rightarrow> bool" where
  "tail_is_end f q \<longleftrightarrow>
    f (q - 1) = 0x1A \<and> f (q - 2) = 0x1B \<and> f (q - 3) = 0x1B \<and> f (q - 4) = 0x1B \<and>
    f (q - 5) = 0x1B"

text \<open>The end sequence stands in \<open>xs\<close> and ends at offset \<open>n\<close>.\<close>

definition end_sequence_at :: "byte list \<Rightarrow> nat \<Rightarrow> bool" where
  "end_sequence_at xs n \<longleftrightarrow>
    length END_SEQUENCE \<le> n \<and> n \<le> length xs \<and>
    take (length END_SEQUENCE) (drop (n - length END_SEQUENCE) xs) = END_SEQUENCE"


definition spec_well_formed :: "byte list \<Rightarrow> bool" where
  "spec_well_formed d \<longleftrightarrow>
    length START_SEQUENCE + length END_SEQUENCE + 3 \<le> length d \<and>
    take (length START_SEQUENCE) d = START_SEQUENCE \<and>
    end_sequence_at d (length d - 3) \<and>
    uint (x25 (take (length d - 2) d))
      = uint (d ! (length d - 2)) + 256 * uint (d ! (length d - 1))"


text \<open>
  The sketch \<open>m\<close> after it has framed the datagram \<open>d\<close> and stands before
  \<open>process_message\<close>, with \<open>rest\<close> unread.
\<close>

definition framed :: "machine \<Rightarrow> byte list \<Rightarrow> byte list \<Rightarrow> machine" where
  "framed m d rest =
    m\<lparr>buffer := store (buffer m) 0 d, position := int (length d),
      bytes_until_checksum := 0, state := Some ST_process_message, sensor := rest,
      serial := serial m @
        [StateIs ST_read_message, StateIs ST_read_checksum, StateIs ST_process_message]\<rparr>"

text \<open>The watchdog test of \<open>run_current_state\<close>.\<close>

definition timed_out :: "machine \<Rightarrow> bool" where
  "timed_out m \<longleftrightarrow> word_of_int (READ_TIMEOUT * 1000) < millis m - last_state_reset m"

text \<open>A freshly booted sketch right after it has read the start sequence.\<close>

definition accumulating :: machine where
  "accumulating =
    set_state ST_read_message
      ((setup_sketch (power_on 0))
         \<lparr>buffer := store (\<lambda>_. 0) 0 START_SEQUENCE, position := 8, sensor := []\<rparr>)"

text \<open>
  A sketch that has matched three bytes of a start sequence, 30001 ms after its last
  reset.
\<close>

definition partial_match :: machine where
  "partial_match =
    (setup_sketch (power_on 0))
      \<lparr>buffer := store (\<lambda>_. 0) 0 [0x1B, 0x1B, 0x1B], position := 3, millis := 30001\<rparr>"

text \<open>
  The transmission that \<open>lingering\<close> has read after the start sequence: 19 bytes 0 and
  then, at the offsets 27 to 33 of the buffer, a time field \<open>01\<close>, a unit field \<open>62 1E\<close>, a
  scaler field \<open>52 FF\<close> and a value field \<open>52 2A\<close>.
\<close>

definition stale_fields :: "byte list" where
  "stale_fields = replicate 19 0 @ [0x01, 0x62, 0x1E, 0x52, 0xFF, 0x52, 0x2A]"

text \<open>
  A sketch that read the start sequence and the 26 bytes \<open>stale_fields\<close>, and then nothing
  for 30001 ms; and the same sketch after the watchdog has ended the transmission. The
  bytes stay in the buffer.
\<close>

definition lingering :: machine where
  "lingering =
    accumulating\<lparr>buffer := store (buffer accumulating) 8 stale_fields,
                 position := 34, millis := 30001\<rparr>"

definition abandoned :: machine where
  "abandoned = reset None (println DidNotReceive lingering)"

text \<open>
  The offset at which the walk that starts after a pattern found at \<open>found_at\<close> reads the
  header of the value field: the cursor of \<open>process_message\<close> after it has skipped the
  status, the time, the unit and the scaler.
\<close>

definition value_header_at :: "machine \<Rightarrow> nat \<Rightarrow> nat \<Rightarrow> nat" where
  "value_header_at m found_at pattern_size =
    (let cp = found_at + pattern_size;
         cp = cp + unat (buffer m cp AND 0x0f);
         cp = cp + unat (buffer m cp AND 0x0f);
         cp = cp + unat (buffer m cp AND 0x0f);
         cp = cp + unat (buffer m cp AND 0x0f)
     in cp)"

text \<open>The recursion equations of the two counting loops are unfolded by hand.\<close>

declare end_sequence_loop.simps [simp del]
declare value_loop.simps [simp del]

section \<open>The framer, loop by loop\<close>

lemmas frame_consts = in_buffer_def BUFFER_SIZE_def START_SEQUENCE_LENGTH_def START_SEQUENCE_def
  END_SEQUENCE_LENGTH_def END_SEQUENCE_def

lemma store_apply:
  "store f p xs i = (if p \<le> i \<and> i < p + length xs then xs ! (i - p) else f i)"
proof (induction xs arbitrary: f p)
  case Nil
  show ?case by auto
next
  case (Cons x xs)
  show ?case
    by (auto simp: Cons.IH nth_Cons')
qed

lemma store_append: "store f p (xs @ ys) = store (store f p xs) (p + length xs) ys"
  by (induction xs arbitrary: f p) simp_all

lemma store_snoc: "store f p (xs @ [x]) = (store f p xs)(p + length xs := x)"
  by (simp add: store_append)

lemma wait_loop_noise:
  "position m = 0 \<Longrightarrow> \<forall>b\<in>set noise. b \<noteq> 0x1B \<Longrightarrow>
   wait_for_start_sequence_loop (noise @ rest) m =
     wait_for_start_sequence_loop rest
       (m\<lparr>buffer := after_noise (buffer m) noise, position := 0\<rparr>)"
proof (induction noise arbitrary: m)
  case Nil
  then have "m\<lparr>buffer := buffer m, position := 0\<rparr> = m"
    by (simp add: machine.equality)
  then show ?case by simp
next
  case (Cons b bs)
  let ?m2 = "m\<lparr>buffer := (buffer m)(0 := b), position := 0\<rparr>"
  from Cons.prems have
    "wait_for_start_sequence_loop ((b # bs) @ rest) m = wait_for_start_sequence_loop (bs @ rest) ?m2"
    by (simp add: Let_def frame_consts)
  also have "\<dots> =
        wait_for_start_sequence_loop rest
          (?m2\<lparr>buffer := after_noise (buffer ?m2) bs, position := 0\<rparr>)"
    using Cons.prems by (intro Cons.IH) simp_all
  also have "?m2\<lparr>buffer := after_noise (buffer ?m2) bs, position := 0\<rparr>
      = m\<lparr>buffer := after_noise (buffer m) (b # bs), position := 0\<rparr>"
    by simp
  finally show ?case .
qed

lemma wait_loop_start:
  "position m = 0 \<Longrightarrow>
   wait_for_start_sequence_loop (START_SEQUENCE @ rest) m =
     Some (rest, set_state ST_read_message
       (m\<lparr>buffer := store (buffer m) 0 START_SEQUENCE, position := 8\<rparr>))"
  by (simp add: Let_def frame_consts eval_nat_numeral)

lemma end_sequence_loop_0:
  "5 \<le> position m \<Longrightarrow> position m \<le> BUFFER_SIZE \<Longrightarrow>
   end_sequence_loop 0 m =
     Some (buffer m (nat (position m - 1)) = 0x1A \<and> buffer m (nat (position m - 2)) = 0x1B \<and>
           buffer m (nat (position m - 3)) = 0x1B \<and> buffer m (nat (position m - 4)) = 0x1B \<and>
           buffer m (nat (position m - 5)) = 0x1B)"
  apply (subst end_sequence_loop.simps)
  apply (subst end_sequence_loop.simps)
  apply (subst end_sequence_loop.simps)
  apply (subst end_sequence_loop.simps)
  apply (subst end_sequence_loop.simps)
  apply (simp add: frame_consts Let_def)
  done


lemma end_sequence_loop_tail:
  "5 \<le> position m \<Longrightarrow> position m \<le> BUFFER_SIZE \<Longrightarrow>
   end_sequence_loop 0 m = Some (tail_is_end (buffer m) (nat (position m)))"
  by (simp add: end_sequence_loop_0 tail_is_end_def nat_diff_distrib)

lemma read_loop_step:
  assumes "4 \<le> position m" "position m + 3 < BUFFER_SIZE"
  shows "read_message_loop (b # bs) m =
     (let m1 = m\<lparr>buffer := (buffer m)(nat (position m) := b), position := position m + 1\<rparr>
      in if tail_is_end (buffer m1) (nat (position m1))
         then Some (bs, set_state ST_read_checksum m1)
         else read_message_loop bs m1)"
  using assms
  by (simp add: Let_def end_sequence_loop_tail in_buffer_def BUFFER_SIZE_def)

lemma read_loop_body:
  assumes "4 \<le> position m" "position m + int (length body) + 3 \<le> BUFFER_SIZE"
    and "\<forall>n. 0 < n \<and> n \<le> length body \<longrightarrow>
           \<not> tail_is_end (store (buffer m) (nat (position m)) (take n body)) (nat (position m) + n)"
  shows "read_message_loop (body @ rest) m =
           read_message_loop rest
             (m\<lparr>buffer := store (buffer m) (nat (position m)) body,
                position := position m + int (length body)\<rparr>)"
  using assms
proof (induction body arbitrary: m)
  case Nil
  have "m\<lparr>buffer := buffer m, position := position m\<rparr> = m"
    by (simp add: machine.equality)
  then show ?case by simp
next
  case (Cons b bs)
  let ?m1 = "m\<lparr>buffer := (buffer m)(nat (position m) := b), position := position m + 1\<rparr>"
  from Cons.prems(3)[rule_format, of 1]
  have nomatch: "\<not> tail_is_end (buffer ?m1) (nat (position ?m1))"
    using Cons.prems(1) by (simp add: nat_add_distrib)
  have "read_message_loop ((b # bs) @ rest) m = read_message_loop (bs @ rest) ?m1"
    using Cons.prems(1,2) nomatch by (simp add: read_loop_step Let_def del: read_message_loop.simps)
  also have "\<dots> = read_message_loop rest
        (?m1\<lparr>buffer := store (buffer ?m1) (nat (position ?m1)) bs,
             position := position ?m1 + int (length bs)\<rparr>)"
  proof (rule Cons.IH)
    show "4 \<le> position ?m1" using Cons.prems(1) by simp
    show "position ?m1 + int (length bs) + 3 \<le> BUFFER_SIZE" using Cons.prems(2) by simp
    show "\<forall>n. 0 < n \<and> n \<le> length bs \<longrightarrow>
           \<not> tail_is_end (store (buffer ?m1) (nat (position ?m1)) (take n bs)) (nat (position ?m1) + n)"
    proof (intro allI impI)
      fix n assume "0 < n \<and> n \<le> length bs"
      with Cons.prems(3)[rule_format, of "Suc n"] Cons.prems(1)
      show "\<not> tail_is_end (store (buffer ?m1) (nat (position ?m1)) (take n bs)) (nat (position ?m1) + n)"
        by (simp add: nat_add_distrib)
    qed
  qed
  also have "?m1\<lparr>buffer := store (buffer ?m1) (nat (position ?m1)) bs,
             position := position ?m1 + int (length bs)\<rparr>
      = m\<lparr>buffer := store (buffer m) (nat (position m)) (b # bs),
                position := position m + int (length (b # bs))\<rparr>"
    using Cons.prems(1) by (simp add: nat_add_distrib add.commute add.left_commute)
  finally show ?case .
qed

lemma read_loop_overflow:
  "position m + 3 = BUFFER_SIZE \<Longrightarrow>
   read_message_loop (b # bs) m = Some (b # bs, reset (Some BufferWillOverflow) m)"
  by simp

lemma read_loop_length:
  "read_message_loop bs m = Some (rest, m') \<Longrightarrow> length rest \<le> length bs"
proof (induction bs arbitrary: m)
  case Nil
  then show ?case by simp
next
  case (Cons b bs)
  then show ?case
    by (fastforce simp: Let_def split: if_splits option.splits bool.splits)
qed

lemma read_checksum_loop_three:
  assumes "bytes_until_checksum m = 3" "0 \<le> position m" "position m + 3 \<le> BUFFER_SIZE"
  shows "read_checksum_loop ([x, y, z] @ rest) m =
     Some (rest, m\<lparr>buffer := store (buffer m) (nat (position m)) [x, y, z],
                     position := position m + 3, bytes_until_checksum := 0\<rparr>)"
proof (cases rest)
  case Nil
  with assms show ?thesis
    by (simp add: in_buffer_def BUFFER_SIZE_def nat_add_distrib)
next
  case (Cons a as)
  with assms show ?thesis
    by (simp add: in_buffer_def BUFFER_SIZE_def nat_add_distrib)
qed

lemma wait_loop_step:
  assumes "0 \<le> position m" "position m < 8"
  shows "wait_for_start_sequence_loop (b # bs) m =
    (let m2 = m\<lparr>buffer := (buffer m)(nat (position m) := b),
                  position := (if b = START_SEQUENCE ! nat (position m) then position m + 1 else 0)\<rparr>
     in if position m2 = 8 then Some (bs, set_state ST_read_message m2)
        else wait_for_start_sequence_loop bs m2)"
  using assms by (simp add: Let_def in_buffer_def BUFFER_SIZE_def START_SEQUENCE_LENGTH_def START_SEQUENCE_def)

lemma wait_inv_step:
  assumes "wait_inv m"
  shows "\<forall>i < nat (if b = START_SEQUENCE ! nat (position m) then position m + 1 else 0).
           ((buffer m)(nat (position m) := b)) i = START_SEQUENCE ! i"
  using assms unfolding wait_inv_def
  by (auto simp: nat_add_distrib less_Suc_eq)

lemma wait_loop_outcome:
  assumes "wait_inv m" "wait_for_start_sequence_loop bs m = Some (rest, m')"
  shows "(wait_inv m' \<and> m' = m\<lparr>buffer := buffer m', position := position m'\<rparr> \<and> rest = [])
       \<or> (\<exists>m2. m' = set_state ST_read_message m2 \<and> position m2 = 8
              \<and> (\<forall>i < 8. buffer m2 i = START_SEQUENCE ! i)
              \<and> m2 = m\<lparr>buffer := buffer m2, position := position m2\<rparr>)"
  using assms
proof (induction bs arbitrary: m)
  case Nil
  then show ?case by (simp add: machine.equality)
next
  case (Cons b bs)
  define m2 where "m2 = m\<lparr>buffer := (buffer m)(nat (position m) := b),
                  position := (if b = START_SEQUENCE ! nat (position m) then position m + 1 else 0)\<rparr>"
  from Cons.prems(1) have rng: "0 \<le> position m" "position m < 8"
    by (simp_all add: wait_inv_def)
  have upd: "m2 = m\<lparr>buffer := buffer m2, position := position m2\<rparr>"
    unfolding m2_def by simp
  have pre2: "\<forall>i < nat (position m2). buffer m2 i = START_SEQUENCE ! i"
    using wait_inv_step[OF Cons.prems(1), of b] unfolding m2_def by simp
  have rng2: "0 \<le> position m2" "position m2 \<le> 8"
    using rng unfolding m2_def by simp_all
  have step: "wait_for_start_sequence_loop (b # bs) m =
      (if position m2 = 8 then Some (bs, set_state ST_read_message m2)
        else wait_for_start_sequence_loop bs m2)"
    unfolding m2_def using wait_loop_step[OF rng, of b bs] by (simp only: Let_def)
  show ?case
  proof (cases "position m2 = 8")
    case True
    with Cons.prems(2) step have "m' = set_state ST_read_message m2" by simp
    with True pre2 upd show ?thesis by auto
  next
    case False
    with Cons.prems(2) step have rec: "wait_for_start_sequence_loop bs m2 = Some (rest, m')"
      by simp
    have inv2: "wait_inv m2"
      using pre2 rng2 False unfolding wait_inv_def by simp
    from Cons.IH[OF inv2 rec] show ?thesis
    proof (elim disjE exE conjE)
      assume a: "wait_inv m'" "m' = m2\<lparr>buffer := buffer m', position := position m'\<rparr>" "rest = []"
      have "m' = m\<lparr>buffer := buffer m', position := position m'\<rparr>"
        by (subst a(2), subst upd) simp
      with a show ?thesis by simp
    next
      fix m3
      assume b: "m' = set_state ST_read_message m3" "position m3 = 8"
        "\<forall>i<8. buffer m3 i = START_SEQUENCE ! i"
        "m3 = m2\<lparr>buffer := buffer m3, position := position m3\<rparr>"
      have "m3 = m\<lparr>buffer := buffer m3, position := position m3\<rparr>"
        by (subst b(4), subst upd) simp
      with b show ?thesis by blast
    qed
  qed
qed

lemma read_loop_outcome:
  assumes "8 \<le> position m" "position m + 3 \<le> BUFFER_SIZE"
    and "read_message_loop bs m = Some (rest, m')"
  shows "(m' = m\<lparr>buffer := buffer m', position := position m'\<rparr> \<and> rest = []
            \<and> 8 \<le> position m' \<and> position m' + 3 \<le> BUFFER_SIZE)
       \<or> (\<exists>m1. m' = reset (Some BufferWillOverflow) m1 \<and> position m1 + 3 = BUFFER_SIZE
              \<and> position m1 = position m + int (length bs) - int (length rest)
              \<and> m1 = m\<lparr>buffer := buffer m1, position := position m1\<rparr>)
       \<or> (\<exists>m1. m' = set_state ST_read_checksum m1
              \<and> 8 \<le> position m1 \<and> position m1 + 3 \<le> BUFFER_SIZE
              \<and> m1 = m\<lparr>buffer := buffer m1, position := position m1\<rparr>)"
  using assms
proof (induction bs arbitrary: m)
  case Nil
  then show ?case by (simp add: machine.equality)
next
  case (Cons b bs)
  show ?case
  proof (cases "position m + 3 = BUFFER_SIZE")
    case True
    with Cons.prems(3) have "m' = reset (Some BufferWillOverflow) m" "rest = b # bs" by simp_all
    moreover have "m = m\<lparr>buffer := buffer m, position := position m\<rparr>" by simp
    ultimately show ?thesis using True by fastforce
  next
    case False
    define m1 where "m1 = m\<lparr>buffer := (buffer m)(nat (position m) := b), position := position m + 1\<rparr>"
    have upd: "m1 = m\<lparr>buffer := buffer m1, position := position m1\<rparr>"
      unfolding m1_def by simp
    have pos1: "position m1 = position m + 1"
      unfolding m1_def by simp
    have rng1: "8 \<le> position m1" "position m1 + 3 \<le> BUFFER_SIZE"
      using Cons.prems(1,2) False unfolding m1_def by simp_all
    have step: "read_message_loop (b # bs) m =
        (if tail_is_end (buffer m1) (nat (position m1))
         then Some (bs, set_state ST_read_checksum m1)
         else read_message_loop bs m1)"
      unfolding m1_def using read_loop_step[of m b bs] Cons.prems(1,2) False
      by (simp only: Let_def)
    show ?thesis
    proof (cases "tail_is_end (buffer m1) (nat (position m1))")
      case True
      with Cons.prems(3) step have "m' = set_state ST_read_checksum m1" by simp
      with rng1 upd show ?thesis by blast
    next
      case False
      with Cons.prems(3) step have rec: "read_message_loop bs m1 = Some (rest, m')" by simp
      from Cons.IH[OF rng1 rec] show ?thesis
      proof (elim disjE exE conjE)
        assume a: "m' = m1\<lparr>buffer := buffer m', position := position m'\<rparr>" "rest = []"
          "8 \<le> position m'" "position m' + 3 \<le> BUFFER_SIZE"
        have "m' = m\<lparr>buffer := buffer m', position := position m'\<rparr>"
          by (subst a(1), subst upd) simp
        with a show ?thesis by simp
      next
        fix m2
        assume b: "m' = reset (Some BufferWillOverflow) m2" "position m2 + 3 = BUFFER_SIZE"
          "position m2 = position m1 + int (length bs) - int (length rest)"
          "m2 = m1\<lparr>buffer := buffer m2, position := position m2\<rparr>"
        have "m2 = m\<lparr>buffer := buffer m2, position := position m2\<rparr>"
          by (subst b(4), subst upd) simp
        moreover from b(3) pos1
        have "position m2 = position m + int (length (b # bs)) - int (length rest)"
          by simp
        ultimately show ?thesis using b(1,2) by blast
      next
        fix m2
        assume c: "m' = set_state ST_read_checksum m2" "8 \<le> position m2"
          "position m2 + 3 \<le> BUFFER_SIZE"
          "m2 = m1\<lparr>buffer := buffer m2, position := position m2\<rparr>"
        have "m2 = m\<lparr>buffer := buffer m2, position := position m2\<rparr>"
          by (subst c(4), subst upd) simp
        with c show ?thesis by blast
      qed
    qed
  qed
qed

lemma read_checksum_loop_outcome:
  assumes "0 \<le> position m" "position m + uint (bytes_until_checksum m) \<le> BUFFER_SIZE"
    and "read_checksum_loop bs m = Some (rest, m')"
  shows "m' = m\<lparr>buffer := buffer m', position := position m',
                  bytes_until_checksum := bytes_until_checksum m'\<rparr>
       \<and> position m \<le> position m'
       \<and> position m' + uint (bytes_until_checksum m') \<le> BUFFER_SIZE"
  using assms
proof (induction bs arbitrary: m)
  case Nil
  then show ?case by (simp add: machine.equality)
next
  case (Cons b bs)
  show ?case
  proof (cases "0 < bytes_until_checksum m")
    case False
    with Cons.prems show ?thesis by (simp add: machine.equality)
  next
    case True
    define m1 where "m1 = m\<lparr>buffer := (buffer m)(nat (position m) := b),
                  position := position m + 1,
                  bytes_until_checksum := bytes_until_checksum m - 1\<rparr>"
    from True have nz: "bytes_until_checksum m \<noteq> 0" by auto
    from nz have u: "unat (bytes_until_checksum m - 1) = unat (bytes_until_checksum m) - 1"
      by (rule unat_minus_one)
    from nz have p: "0 < unat (bytes_until_checksum m)"
      by (simp add: unat_gt_0)
    from u p have "int (unat (bytes_until_checksum m - 1)) = int (unat (bytes_until_checksum m)) - 1"
      by linarith
    then have dec: "uint (bytes_until_checksum m - 1) = uint (bytes_until_checksum m) - 1"
      by (simp only: uint_nat)
    from True Cons.prems have pos: "in_buffer (position m)"
      by (simp add: in_buffer_def word_less_def)
    have upd: "m1 = m\<lparr>buffer := buffer m1, position := position m1,
                  bytes_until_checksum := bytes_until_checksum m1\<rparr>"
      unfolding m1_def by simp
    have rng1: "0 \<le> position m1" "position m1 + uint (bytes_until_checksum m1) \<le> BUFFER_SIZE"
      using Cons.prems(1,2) dec unfolding m1_def by simp_all
    from Cons.prems(3) True pos have rec: "read_checksum_loop bs m1 = Some (rest, m')"
      unfolding m1_def by simp
    from Cons.IH[OF rng1 rec]
    have a: "m' = m1\<lparr>buffer := buffer m', position := position m',
                  bytes_until_checksum := bytes_until_checksum m'\<rparr>"
      and b: "position m1 \<le> position m'"
      and c: "position m' + uint (bytes_until_checksum m') \<le> BUFFER_SIZE"
      by simp_all
    have "m' = m\<lparr>buffer := buffer m', position := position m',
                  bytes_until_checksum := bytes_until_checksum m'\<rparr>"
      by (subst a, subst upd) simp
    moreover from b have "position m \<le> position m'" unfolding m1_def by simp
    ultimately show ?thesis using c by simp
  qed
qed

section \<open>The invariant of the framer\<close>

lemma set_state_fields [simp]:
  "state (set_state s m) = Some s"
  "buffer (set_state s m) = buffer m"
  "sensor (set_state s m) = sensor m"
  "millis (set_state s m) = millis m"
  "userm (set_state s m) = userm m"
  "usern (set_state s m) = usern m"
  "usero (set_state s m) = usero m"
  "userp (set_state s m) = userp m"
  "serial (set_state s m) = serial m @ [StateIs s]"
  by (cases s; simp add: set_state_def println_def)+

lemma set_state_position:
  "position (set_state s m) = (if s = ST_wait_for_start_sequence then 0 else position m)"
  by (cases s; simp add: set_state_def println_def)

lemma set_state_bytes_until_checksum:
  "bytes_until_checksum (set_state s m) = (if s = ST_read_checksum then 3 else bytes_until_checksum m)"
  by (cases s; simp add: set_state_def println_def)

lemma set_state_last_state_reset:
  "last_state_reset (set_state s m) =
     (if s = ST_wait_for_start_sequence then millis m else last_state_reset m)"
  by (cases s; simp add: set_state_def println_def)

lemma set_state_sensor_update [simp]:
  "(set_state s m)\<lparr>sensor := x\<rparr> = set_state s (m\<lparr>sensor := x\<rparr>)"
  by (cases s; simp add: set_state_def println_def)

lemma reset_fields [simp]:
  "state (reset msg m) = Some ST_wait_for_start_sequence"
  "position (reset msg m) = 0"
  "buffer (reset msg m) = buffer m"
  "sensor (reset msg m) = sensor m"
  "millis (reset msg m) = millis m"
  "last_state_reset (reset msg m) = millis m"
  "userm (reset msg m) = userm m"
  "usern (reset msg m) = usern m"
  "usero (reset msg m) = usero m"
  "userp (reset msg m) = userp m"
  by (cases msg; simp add: reset_def set_state_position set_state_last_state_reset println_def)+

lemma reset_serial:
  "serial (reset msg m) =
     serial m @ (case msg of None \<Rightarrow> [] | Some l \<Rightarrow> [l]) @ [StateIs ST_wait_for_start_sequence]"
  by (cases msg; simp add: reset_def println_def)

lemma framer_inv_reset [simp]: "framer_inv (reset msg m)"
  by (simp add: framer_inv_def wait_inv_def)

lemma framer_inv_sensor [simp]: "framer_inv (m\<lparr>sensor := x\<rparr>) = framer_inv m"
  by (simp add: framer_inv_def wait_inv_def split: option.splits state_fn.splits)

lemma process_message_resets:
  assumes "process_message r m = Some m'"
  shows "state m' = Some ST_wait_for_start_sequence \<and> position m' = 0 \<and> framer_inv m'
           \<and> buffer m' = buffer (the (process_message r m))"
  using assms unfolding process_message_def
  by (auto split: if_splits Option.bind_splits)

lemma wait_for_start_sequence_inv:
  assumes "state m = Some ST_wait_for_start_sequence" "wait_inv m"
    and "wait_for_start_sequence m = Some m'"
  shows "framer_inv m'"
proof -
  from assms(3) obtain rest m1 where
    loop: "wait_for_start_sequence_loop (sensor m) m = Some (rest, m1)"
    and m': "m' = m1\<lparr>sensor := rest\<rparr>"
    unfolding wait_for_start_sequence_def by (auto split: Option.bind_splits)
  from wait_loop_outcome[OF assms(2) loop] have "framer_inv m1"
  proof (elim disjE exE conjE)
    assume a: "wait_inv m1" "m1 = m\<lparr>buffer := buffer m1, position := position m1\<rparr>"
    have "state m1 = state m" by (subst a(2)) simp
    with a(1) assms(1) show ?thesis by (simp add: framer_inv_def)
  next
    fix m2 assume "m1 = set_state ST_read_message m2" "position m2 = 8"
    then show ?thesis
      by (simp add: framer_inv_def set_state_position BUFFER_SIZE_def)
  qed
  with m' show ?thesis by simp
qed

lemma read_message_inv:
  assumes "state m = Some ST_read_message" "framer_inv m"
    and "read_message m = Some m'"
  shows "framer_inv m'"
proof -
  from assms(3) obtain rest m1 where
    loop: "read_message_loop (sensor m) m = Some (rest, m1)"
    and m': "m' = m1\<lparr>sensor := rest\<rparr>"
    unfolding read_message_def by (auto split: Option.bind_splits)
  from assms(1,2) have rng: "8 \<le> position m" "position m + 3 \<le> BUFFER_SIZE"
    by (simp_all add: framer_inv_def)
  from read_loop_outcome[OF rng loop] have "framer_inv m1"
  proof (elim disjE exE conjE)
    assume a: "m1 = m\<lparr>buffer := buffer m1, position := position m1\<rparr>"
      "8 \<le> position m1" "position m1 + 3 \<le> BUFFER_SIZE"
    have "state m1 = state m" by (subst a(1)) simp
    with a assms(1) show ?thesis by (simp add: framer_inv_def)
  next
    fix m2 assume "m1 = reset (Some BufferWillOverflow) m2"
    then show ?thesis by simp
  next
    fix m2 assume "m1 = set_state ST_read_checksum m2" "8 \<le> position m2"
      "position m2 + 3 \<le> BUFFER_SIZE"
    then show ?thesis
      by (simp add: framer_inv_def set_state_position set_state_bytes_until_checksum)
  qed
  with m' show ?thesis by simp
qed

lemma read_checksum_inv:
  assumes "state m = Some ST_read_checksum" "framer_inv m"
    and "read_checksum m = Some m'"
  shows "framer_inv m'"
proof -
  from assms(3) obtain rest m1 where
    loop: "read_checksum_loop (sensor m) m = Some (rest, m1)"
    and m': "m' = (if bytes_until_checksum m1 = 0
                   then set_state ST_process_message (m1\<lparr>sensor := rest\<rparr>)
                   else m1\<lparr>sensor := rest\<rparr>)"
    unfolding read_checksum_def by (auto simp: Let_def split: Option.bind_splits)
  from assms(1,2) have rng: "0 \<le> position m"
    "position m + uint (bytes_until_checksum m) \<le> BUFFER_SIZE" and p8: "8 \<le> position m"
    by (simp_all add: framer_inv_def)
  from read_checksum_loop_outcome[OF rng loop]
  have a: "m1 = m\<lparr>buffer := buffer m1, position := position m1,
                  bytes_until_checksum := bytes_until_checksum m1\<rparr>"
    and b: "position m \<le> position m1"
    and c: "position m1 + uint (bytes_until_checksum m1) \<le> BUFFER_SIZE"
    by simp_all
  have st: "state m1 = state m" by (subst a) simp
  show ?thesis
  proof (cases "bytes_until_checksum m1 = 0")
    case True
    with m' b c p8 show ?thesis
      by (simp add: framer_inv_def set_state_position)
  next
    case False
    with m' b c p8 st assms(1) show ?thesis
      by (simp add: framer_inv_def)
  qed
qed

lemma call_state_inv:
  assumes "state m = Some s" "framer_inv m" "call_state s r m = Some m'"
  shows "framer_inv m'"
proof (cases s)
  case ST_wait_for_start_sequence
  with assms have "state m = Some ST_wait_for_start_sequence" "wait_inv m"
    "wait_for_start_sequence m = Some m'"
    by (simp_all add: call_state_def framer_inv_def)
  then show ?thesis by (rule wait_for_start_sequence_inv)
next
  case ST_read_message
  with assms show ?thesis
    by (auto simp: call_state_def intro: read_message_inv)
next
  case ST_read_checksum
  with assms show ?thesis
    by (auto simp: call_state_def intro: read_checksum_inv)
next
  case ST_process_message
  with assms show ?thesis
    by (auto simp: call_state_def dest: process_message_resets)
qed

lemma run_current_state_inv:
  assumes "framer_inv m" "run_current_state r m = Some m'"
  shows "framer_inv m'"
proof -
  from assms(1) obtain s0 where s0: "state m = Some s0"
    by (auto simp: framer_inv_def split: option.splits)
  define m1 where "m1 = (if word_of_int (READ_TIMEOUT * 1000) < millis m - last_state_reset m
                   then reset None (println DidNotReceive m) else m)"
  have inv1: "framer_inv m1" using assms(1) unfolding m1_def by simp
  then obtain s where s: "state m1 = Some s"
    by (auto simp: framer_inv_def split: option.splits)
  from assms(2) s0 s have "call_state s r m1 = Some m'"
    unfolding run_current_state_def m1_def by (simp add: Let_def)
  from call_state_inv[OF s inv1 this] show ?thesis .
qed

lemma reachable_framer_inv: "reachable m \<Longrightarrow> framer_inv m"
proof (induction rule: reachable.induct)
  case (booted t)
  show ?case by (simp add: setup_sketch_def framer_inv_def wait_inv_def set_state_position)
next
  case (arrival m bs)
  then show ?case by (simp add: feed_def)
next
  case (timer m t)
  then show ?case
    by (simp add: framer_inv_def wait_inv_def split: option.splits state_fn.splits)
next
  case (tick m r m')
  then show ?case by (auto simp: loop_sketch_def intro: run_current_state_inv)
qed

lemma wait_for_start_sequence_booted:
  "wait_for_start_sequence (feed (START_SEQUENCE @ rest) (setup_sketch (power_on t))) =
     Some (set_state ST_read_message
       ((setup_sketch (power_on t))
          \<lparr>buffer := store (\<lambda>_. 0) 0 START_SEQUENCE, position := 8, sensor := rest\<rparr>))"
proof -
  let ?m = "feed (START_SEQUENCE @ rest) (setup_sketch (power_on t))"
  have s: "sensor ?m = START_SEQUENCE @ rest"
    by (simp add: feed_def setup_sketch_def power_on_def)
  have p: "position ?m = 0"
    by (simp add: feed_def setup_sketch_def set_state_position)
  have b: "buffer ?m = (\<lambda>_. 0)"
    by (simp add: feed_def setup_sketch_def power_on_def)
  show ?thesis
    unfolding wait_for_start_sequence_def s wait_loop_start[OF p] b
    by (simp add: feed_def machine.equality set_state_position set_state_bytes_until_checksum
      set_state_last_state_reset)
qed

lemma reachable_fed_boot: "reachable (feed bs (setup_sketch (power_on t)))"
  by (intro reachable.arrival reachable.booted)

section \<open>C8: what happens to the buffer when the start sequence is complete\<close>

text \<open>
  C8 says that the buffer is cleared (its length becomes zero) when the match cursor
  reaches the length of the start sequence. It is not: \<open>set_state(read_message)\<close> leaves
  \<open>position\<close> alone. After the eight bytes of the start sequence were read by a freshly
  booted sketch, the state is \<open>read_message\<close> and \<open>position\<close> is 8.
\<close>

theorem C8_counterexample:
  "wait_for_start_sequence (feed START_SEQUENCE (setup_sketch (power_on 0))) \<noteq> None \<and>
   state (the (wait_for_start_sequence (feed START_SEQUENCE (setup_sketch (power_on 0)))))
     = Some ST_read_message \<and>
   position (the (wait_for_start_sequence (feed START_SEQUENCE (setup_sketch (power_on 0)))))
     = 8"
  using wait_for_start_sequence_booted[of "[]" 0]
  by (simp add: set_state_position)

text \<open>
  C8, amended: when a reachable sketch that waits for the start sequence completes the
  match, \<open>position\<close> is 8, the first eight bytes of the buffer are the start sequence,
  and the next byte read is stored at offset 8.
\<close>

theorem C8_start_sequence_kept:
  assumes "reachable m" "state m = Some ST_wait_for_start_sequence"
    and "wait_for_start_sequence m = Some m'" "state m' = Some ST_read_message"
  shows "position m' = 8 \<and> map (buffer m') [0..<8] = START_SEQUENCE \<and>
         read_message_loop [b] m'
           = Some ([], m'\<lparr>buffer := (buffer m')(8 := b), position := 9\<rparr>)"
proof -
  from reachable_framer_inv[OF assms(1)] assms(2) have inv: "wait_inv m"
    by (simp add: framer_inv_def)
  from assms(3) obtain rest m1 where
    loop: "wait_for_start_sequence_loop (sensor m) m = Some (rest, m1)"
    and m': "m' = m1\<lparr>sensor := rest\<rparr>"
    unfolding wait_for_start_sequence_def by (auto split: Option.bind_splits)
  from wait_loop_outcome[OF inv loop]
  obtain m2 where m1: "m1 = set_state ST_read_message m2" and p2: "position m2 = 8"
    and b2: "\<forall>i<8. buffer m2 i = START_SEQUENCE ! i"
  proof (elim disjE exE conjE)
    assume a: "m1 = m\<lparr>buffer := buffer m1, position := position m1\<rparr>"
    have "state m1 = state m" by (subst a) simp
    with assms(2,4) m' show ?thesis by simp
  next
    fix m2 assume "m1 = set_state ST_read_message m2" "position m2 = 8"
      "\<forall>i<8. buffer m2 i = START_SEQUENCE ! i"
    then show ?thesis by (rule that)
  qed
  have pos: "position m' = 8"
    using m' m1 p2 by (simp add: set_state_position)
  have buf: "\<forall>i<8. buffer m' i = START_SEQUENCE ! i"
    using m' m1 b2 by simp
  have "map (buffer m') [0..<8] = START_SEQUENCE"
    by (rule nth_equalityI) (simp_all add: buf START_SEQUENCE_def)
  moreover have "read_message_loop [b] m'
           = Some ([], m'\<lparr>buffer := (buffer m')(8 := b), position := 9\<rparr>)"
    using pos buf[rule_format, of 7]
    by (simp add: read_loop_step Let_def BUFFER_SIZE_def tail_is_end_def START_SEQUENCE_def
        del: read_message_loop.simps(2))
  ultimately show ?thesis using pos by simp
qed

text \<open>The amended C8 at a freshly booted sketch that receives the start sequence.\<close>

theorem C8_start_sequence_kept_witness:
  "reachable (feed START_SEQUENCE (setup_sketch (power_on 0))) \<and>
   state (feed START_SEQUENCE (setup_sketch (power_on 0))) = Some ST_wait_for_start_sequence \<and>
   state (the (wait_for_start_sequence (feed START_SEQUENCE (setup_sketch (power_on 0)))))
     = Some ST_read_message \<and>
   map (buffer (the (wait_for_start_sequence (feed START_SEQUENCE (setup_sketch (power_on 0))))))
     [0..<8] = START_SEQUENCE"
proof -
  let ?m = "feed START_SEQUENCE (setup_sketch (power_on 0))"
  have r: "reachable ?m" by (rule reachable_fed_boot)
  have s: "state ?m = Some ST_wait_for_start_sequence"
    by (simp add: feed_def setup_sketch_def)
  obtain m' where w: "wait_for_start_sequence ?m = Some m'"
    and s': "state m' = Some ST_read_message"
    using wait_for_start_sequence_booted[of "[]" 0] by simp
  from C8_start_sequence_kept[OF r s w s'] r s w s' show ?thesis by simp
qed

lemma run_current_state_no_timeout:
  "state m = Some s \<Longrightarrow> \<not> word_of_int (READ_TIMEOUT * 1000) < millis m - last_state_reset m \<Longrightarrow>
   run_current_state r m = call_state s r m"
  by (simp add: run_current_state_def)

lemma read_loop_overflow_iff:
  "read_message_loop (b # bs) m = Some (b # bs, reset (Some BufferWillOverflow) m)
     \<longleftrightarrow> position m = BUFFER_SIZE - 3"
proof
  assume "position m = BUFFER_SIZE - 3"
  then show "read_message_loop (b # bs) m = Some (b # bs, reset (Some BufferWillOverflow) m)"
    by simp
next
  assume res: "read_message_loop (b # bs) m = Some (b # bs, reset (Some BufferWillOverflow) m)"
  show "position m = BUFFER_SIZE - 3"
  proof (rule ccontr)
    assume "position m \<noteq> BUFFER_SIZE - 3"
    then have no: "position m + 3 \<noteq> BUFFER_SIZE" by simp
    define m1 where "m1 = m\<lparr>buffer := (buffer m)(nat (position m) := b), position := position m + 1\<rparr>"
    from res no have "read_message_loop bs m1 = Some (b # bs, reset (Some BufferWillOverflow) m)"
      unfolding m1_def
      by (simp add: Let_def split: if_splits option.splits bool.splits)
    from read_loop_length[OF this] show False by simp
  qed
qed

lemma accumulating_fields:
  "state accumulating = Some ST_read_message" "position accumulating = 8"
  "sensor accumulating = []" "millis accumulating = 0" "last_state_reset accumulating = 0"
  by (simp_all add: accumulating_def set_state_position set_state_last_state_reset
      setup_sketch_def power_on_def)

lemma reachable_accumulating: "reachable accumulating"
proof -
  let ?m = "feed (START_SEQUENCE @ []) (setup_sketch (power_on 0))"
  have "state ?m = Some ST_wait_for_start_sequence"
    by (simp add: feed_def setup_sketch_def)
  moreover have "\<not> word_of_int (READ_TIMEOUT * 1000) < millis ?m - last_state_reset ?m"
    by (simp add: feed_def setup_sketch_def set_state_last_state_reset)
  ultimately have "loop_sketch r ?m = wait_for_start_sequence ?m" for r
    by (simp add: loop_sketch_def run_current_state_no_timeout call_state_def)
  then have "loop_sketch r ?m = Some accumulating" for r
    unfolding wait_for_start_sequence_booted accumulating_def by simp
  with reachable_fed_boot[of "START_SEQUENCE @ []" 0] show ?thesis
    by (rule reachable.tick)
qed

lemma read_loop_zeros:
  assumes "4 \<le> position m" "position m + int n + 3 \<le> BUFFER_SIZE"
  shows "read_message_loop (replicate n 0 @ rest) m =
           read_message_loop rest
             (m\<lparr>buffer := store (buffer m) (nat (position m)) (replicate n 0),
                position := position m + int n\<rparr>)"
proof -
  have "\<forall>k. 0 < k \<and> k \<le> length (replicate n (0::byte)) \<longrightarrow>
           \<not> tail_is_end (store (buffer m) (nat (position m)) (take k (replicate n 0)))
                 (nat (position m) + k)"
  proof (intro allI impI)
    fix k assume k: "0 < k \<and> k \<le> length (replicate n (0::byte))"
    then have k0: "0 < k" and kn: "k \<le> n" by simp_all
    have len: "length (take k (replicate n (0::byte))) = k"
      using kn by simp
    have idx: "nat (position m) + k - 1 - nat (position m) = k - 1"
      using k0 by arith
    have "nat (position m) \<le> nat (position m) + k - 1 \<and>
          nat (position m) + k - 1 < nat (position m) + k"
      using k0 by arith
    then have "store (buffer m) (nat (position m)) (take k (replicate n 0))
                 (nat (position m) + k - 1) = take k (replicate n 0) ! (k - 1)"
      by (simp only: store_apply len idx) simp
    also have "\<dots> = 0"
      using k0 kn by simp
    finally have "store (buffer m) (nat (position m)) (take k (replicate n 0))
                 (nat (position m) + k - 1) = 0" .
    then show "\<not> tail_is_end (store (buffer m) (nat (position m)) (take k (replicate n 0)))
                 (nat (position m) + k)"
      by (simp add: tail_is_end_def)
  qed
  from read_loop_body[OF _ _ this, of rest] assms show ?thesis by simp
qed


section \<open>C4: the overflow check of \<open>read_message\<close>\<close>

text \<open>
  C4: while bytes are accumulated, the overflow reset is triggered exactly when
  \<open>position\<close> is \<open>BUFFER_SIZE - 3 = 3837\<close> and a further byte is waiting; the check comes
  before the append, so the byte stays in the queue and the buffer is not written, and
  \<open>position\<close> never exceeds 3837 in the state \<open>read_message\<close>. The first conjunct is
  about one iteration of the loop, in any machine; the third about the machines reachable
  between two calls of \<open>loop\<close>; the last about a whole run of the loop: when it ends with
  a reset, the reset is the overflow reset, 3837 bytes were in the buffer, and the bytes
  read are exactly those that brought \<open>position\<close> there.
\<close>

theorem C4_overflow_threshold:
  "(read_message_loop (b # bs) m = Some (b # bs, reset (Some BufferWillOverflow) m)
      \<longleftrightarrow> position m = BUFFER_SIZE - 3)
   \<and> BUFFER_SIZE - 3 = 3837
   \<and> (reachable m \<and> state m = Some ST_read_message
        \<longrightarrow> 8 \<le> position m \<and> position m \<le> BUFFER_SIZE - 3)
   \<and> (state m = Some ST_read_message \<and> 8 \<le> position m \<and> position m \<le> BUFFER_SIZE - 3
        \<and> read_message_loop queue m = Some (rest, m')
        \<longrightarrow> (state m' = Some ST_read_message \<longrightarrow> position m' \<le> BUFFER_SIZE - 3)
          \<and> (state m' = Some ST_wait_for_start_sequence
               \<longrightarrow> (\<exists>m1. m' = reset (Some BufferWillOverflow) m1
                      \<and> position m1 = BUFFER_SIZE - 3
                      \<and> position m1 = position m + int (length queue) - int (length rest))))"
proof (intro conjI impI)
  show "read_message_loop (b # bs) m = Some (b # bs, reset (Some BufferWillOverflow) m)
      \<longleftrightarrow> position m = BUFFER_SIZE - 3"
    by (rule read_loop_overflow_iff)
  show "BUFFER_SIZE - 3 = 3837" by (simp add: BUFFER_SIZE_def)
next
  assume "reachable m \<and> state m = Some ST_read_message"
  with reachable_framer_inv[of m] have "8 \<le> position m \<and> position m + 3 \<le> BUFFER_SIZE"
    by (simp add: framer_inv_def)
  then show "8 \<le> position m" "position m \<le> BUFFER_SIZE - 3" by simp_all
next
  assume a: "state m = Some ST_read_message \<and> 8 \<le> position m \<and> position m \<le> BUFFER_SIZE - 3
        \<and> read_message_loop queue m = Some (rest, m')"
  then have rng: "8 \<le> position m" "position m + 3 \<le> BUFFER_SIZE"
    and loop: "read_message_loop queue m = Some (rest, m')" and st: "state m = Some ST_read_message"
    by simp_all
  note out = read_loop_outcome[OF rng loop]
  {
    assume "state m' = Some ST_read_message"
    with out show "position m' \<le> BUFFER_SIZE - 3"
      by (elim disjE exE conjE) simp_all
  }
  {
    assume w: "state m' = Some ST_wait_for_start_sequence"
    from out show "\<exists>m1. m' = reset (Some BufferWillOverflow) m1
                      \<and> position m1 = BUFFER_SIZE - 3
                      \<and> position m1 = position m + int (length queue) - int (length rest)"
    proof (elim disjE exE conjE)
      assume e: "m' = m\<lparr>buffer := buffer m', position := position m'\<rparr>"
      have "state m' = state m" by (subst e) simp
      with w st show ?thesis by simp
    next
      fix m1 assume "m' = reset (Some BufferWillOverflow) m1" "position m1 + 3 = BUFFER_SIZE"
        "position m1 = position m + int (length queue) - int (length rest)"
      then show ?thesis by (intro exI[of _ m1]) simp
    next
      fix m1 assume "m' = set_state ST_read_checksum m1"
      with w show ?thesis by simp
    qed
  }
qed

text \<open>
  C4 at the sketch that has just read the start sequence and then receives 3830 bytes
  without an end sequence: the byte number 3830 triggers the reset and is not read.
\<close>

theorem C4_overflow_threshold_witness:
  "reachable accumulating \<and> state accumulating = Some ST_read_message \<and>
   8 \<le> position accumulating \<and> position accumulating \<le> BUFFER_SIZE - 3 \<and>
   read_message_loop (replicate 3829 0 @ [0x55]) accumulating
     = Some ([0x55], reset (Some BufferWillOverflow)
         (accumulating\<lparr>buffer := store (buffer accumulating) 8 (replicate 3829 0),
                        position := 3837\<rparr>)) \<and>
   state (reset (Some BufferWillOverflow)
         (accumulating\<lparr>buffer := store (buffer accumulating) 8 (replicate 3829 0),
                        position := 3837\<rparr>)) = Some ST_wait_for_start_sequence \<and>
   (\<exists>m1. reset (Some BufferWillOverflow)
         (accumulating\<lparr>buffer := store (buffer accumulating) 8 (replicate 3829 0),
                        position := 3837\<rparr>) = reset (Some BufferWillOverflow) m1
        \<and> position m1 = BUFFER_SIZE - 3
        \<and> position m1 = position accumulating + int (length (replicate 3829 (0::byte) @ [0x55]))
             - int (length [0x55::byte]))"
proof -
  let ?full = "accumulating\<lparr>buffer := store (buffer accumulating) 8 (replicate 3829 0),
                        position := 3837\<rparr>"
  have r: "reachable accumulating \<and> state accumulating = Some ST_read_message"
    by (simp add: reachable_accumulating accumulating_fields)
  have run: "read_message_loop (replicate 3829 0 @ [0x55]) accumulating
     = Some ([0x55], reset (Some BufferWillOverflow) ?full)"
    by (subst read_loop_zeros) (simp_all add: accumulating_fields BUFFER_SIZE_def)
  have st: "state (reset (Some BufferWillOverflow) ?full) = Some ST_wait_for_start_sequence"
    by simp
  note inst = C4_overflow_threshold[of 0 "[]" accumulating "replicate 3829 0 @ [0x55]" "[0x55]"
      "reset (Some BufferWillOverflow) ?full"]
  from inst r have bounds: "8 \<le> position accumulating \<and> position accumulating \<le> BUFFER_SIZE - 3"
    by blast
  with inst r run st show ?thesis by blast
qed

section \<open>Framing a whole datagram\<close>

lemma store_after_noise:
  "xs \<noteq> [] \<Longrightarrow> store (after_noise f noise) 0 xs = store f 0 xs"
proof (induction noise arbitrary: f)
  case Nil
  show ?case by simp
next
  case (Cons b bs)
  have "store (f(0 := b)) 0 xs = store f 0 xs"
    using Cons.prems by (intro ext) (simp add: store_apply)
  with Cons show ?case by simp
qed

lemma all_less_5: "(\<forall>i<5::nat. P i) \<longleftrightarrow> P 0 \<and> P 1 \<and> P 2 \<and> P 3 \<and> P 4"
proof -
  have "i < 5 \<longleftrightarrow> i = 0 \<or> i = 1 \<or> i = 2 \<or> i = 3 \<or> i = 4" for i :: nat
    by arith
  then show ?thesis by metis
qed

lemma length_END_SEQUENCE: "length END_SEQUENCE = 5"
  by (simp add: END_SEQUENCE_def)

lemma length_START_SEQUENCE: "length START_SEQUENCE = 8"
  by (simp add: START_SEQUENCE_def)

lemma end_sequence_at_nth:
  assumes "5 \<le> n" "n \<le> length xs"
  shows "end_sequence_at xs n \<longleftrightarrow>
     xs ! (n - 5) = 0x1B \<and> xs ! (n - 4) = 0x1B \<and> xs ! (n - 3) = 0x1B
        \<and> xs ! (n - 2) = 0x1B \<and> xs ! (n - 1) = 0x1A"
proof -
  have len: "length (take 5 (drop (n - 5) xs)) = 5"
    using assms by simp
  have nth: "take 5 (drop (n - 5) xs) ! i = xs ! (n - 5 + i)" if "i < 5" for i
    using that assms by simp
  have e: "END_SEQUENCE ! 0 = 0x1B" "END_SEQUENCE ! 1 = 0x1B" "END_SEQUENCE ! 2 = 0x1B"
    "END_SEQUENCE ! 3 = 0x1B" "END_SEQUENCE ! 4 = 0x1A"
    by (simp_all add: END_SEQUENCE_def)
  from assms(1) have idx: "n - 5 + 1 = n - 4" "n - 5 + 2 = n - 3" "n - 5 + 3 = n - 2"
    "n - 5 + 4 = n - 1" "n - 5 + 0 = n - 5"
    by arith+
  have "end_sequence_at xs n \<longleftrightarrow> take 5 (drop (n - 5) xs) = END_SEQUENCE"
    using assms unfolding end_sequence_at_def length_END_SEQUENCE by simp
  also have "\<dots> \<longleftrightarrow> (\<forall>i<5. take 5 (drop (n - 5) xs) ! i = END_SEQUENCE ! i)"
    unfolding list_eq_iff_nth_eq len length_END_SEQUENCE by simp
  also have "\<dots> \<longleftrightarrow> (\<forall>i<5. xs ! (n - 5 + i) = END_SEQUENCE ! i)"
    using nth by auto
  also have "\<dots> \<longleftrightarrow> xs ! (n - 5) = 0x1B \<and> xs ! (n - 4) = 0x1B \<and> xs ! (n - 3) = 0x1B
        \<and> xs ! (n - 2) = 0x1B \<and> xs ! (n - 1) = 0x1A"
    unfolding all_less_5 e idx by simp
  finally show ?thesis .
qed

lemma tail_is_end_store:
  assumes "5 \<le> n" "n \<le> length xs"
  shows "tail_is_end (store f 0 xs) n \<longleftrightarrow> end_sequence_at xs n"
proof -
  have "store f 0 xs (n - k) = xs ! (n - k)" if "0 < k" for k
  proof -
    from assms that have "n - k < length xs" by arith
    then show ?thesis by (simp add: store_apply)
  qed
  then show ?thesis
    unfolding end_sequence_at_nth[OF assms] tail_is_end_def by auto
qed

lemma run_current_state_in_time:
  "state m = Some s \<Longrightarrow> \<not> timed_out m \<Longrightarrow> run_current_state r m = call_state s r m"
  by (simp add: run_current_state_def timed_out_def)

lemma timed_out_cong:
  "millis m' = millis m \<Longrightarrow> last_state_reset m' = last_state_reset m \<Longrightarrow>
   timed_out m' = timed_out m"
  by (simp add: timed_out_def)

lemma tick_start:
  assumes "state m = Some ST_wait_for_start_sequence" "position m = 0" "\<not> timed_out m"
    and "\<forall>b\<in>set noise. b \<noteq> 0x1B"
    and "sensor m = noise @ START_SEQUENCE @ rest"
  shows "run_current_state r m =
     Some (set_state ST_read_message
       (m\<lparr>buffer := store (buffer m) 0 START_SEQUENCE, position := 8, sensor := rest\<rparr>))"
proof -
  let ?m0 = "m\<lparr>buffer := after_noise (buffer m) noise, position := 0\<rparr>"
  have "wait_for_start_sequence_loop (noise @ START_SEQUENCE @ rest) m =
        wait_for_start_sequence_loop (START_SEQUENCE @ rest) ?m0"
    using assms(2,4) by (rule wait_loop_noise)
  also have "\<dots> = Some (rest, set_state ST_read_message
       (?m0\<lparr>buffer := store (buffer ?m0) 0 START_SEQUENCE, position := 8\<rparr>))"
    by (rule wait_loop_start) simp
  also have "?m0\<lparr>buffer := store (buffer ?m0) 0 START_SEQUENCE, position := 8\<rparr>
      = m\<lparr>buffer := store (buffer m) 0 START_SEQUENCE, position := 8\<rparr>"
  proof -
    have "store (after_noise (buffer m) noise) 0 START_SEQUENCE = store (buffer m) 0 START_SEQUENCE"
      by (rule store_after_noise) (simp add: START_SEQUENCE_def)
    then show ?thesis by simp
  qed
  finally have "wait_for_start_sequence m = Some ((set_state ST_read_message
       (m\<lparr>buffer := store (buffer m) 0 START_SEQUENCE, position := 8\<rparr>))\<lparr>sensor := rest\<rparr>)"
    unfolding wait_for_start_sequence_def assms(5) by simp
  then show ?thesis
    using assms(1,3) by (simp add: run_current_state_in_time call_state_def)
qed

lemma end_sequence_at_take:
  assumes "5 \<le> n" "n \<le> length xs"
  shows "end_sequence_at (take n xs) n \<longleftrightarrow> end_sequence_at xs n"
proof -
  have "take n xs ! (n - k) = xs ! (n - k)" if "0 < k" for k
  proof -
    from assms that have "n - k < n" by arith
    then show ?thesis by simp
  qed
  moreover from assms have "n \<le> length (take n xs)" by simp
  ultimately show ?thesis
    unfolding end_sequence_at_nth[OF assms] end_sequence_at_nth[OF assms(1) \<open>n \<le> length (take n xs)\<close>]
    by simp
qed

lemma end_sequence_at_end: "end_sequence_at (xs @ END_SEQUENCE) (length (xs @ END_SEQUENCE))"
  by (simp add: end_sequence_at_def length_END_SEQUENCE)


lemma read_loop_step_end:
  assumes "4 \<le> position m" "position m + 3 < BUFFER_SIZE"
    and "tail_is_end ((buffer m)(nat (position m) := b)) (nat (position m + 1))"
  shows "read_message_loop (b # bs) m =
     Some (bs, set_state ST_read_checksum
       (m\<lparr>buffer := (buffer m)(nat (position m) := b), position := position m + 1\<rparr>))"
  using assms(3) unfolding read_loop_step[OF assms(1,2)] by (simp add: Let_def)

lemma tick_accumulate:
  assumes st: "state m = Some ST_read_message" and pos: "position m = 8"
    and nt: "\<not> timed_out m"
    and buf: "buffer m = store f 0 START_SEQUENCE"
    and sen: "sensor m = payload @ END_SEQUENCE @ rest"
    and first: "\<forall>n < length (START_SEQUENCE @ payload @ END_SEQUENCE).
                  \<not> end_sequence_at (START_SEQUENCE @ payload @ END_SEQUENCE) n"
    and len: "int (length (START_SEQUENCE @ payload @ END_SEQUENCE)) + 3 \<le> BUFFER_SIZE"
  shows "run_current_state r m =
     Some (set_state ST_read_checksum
       (m\<lparr>buffer := store f 0 (START_SEQUENCE @ payload @ END_SEQUENCE),
          position := int (length (START_SEQUENCE @ payload @ END_SEQUENCE)),
          sensor := rest\<rparr>))"
proof -
  let ?X = "START_SEQUENCE @ payload @ END_SEQUENCE"
  define body where "body = payload @ [0x1B, 0x1B, 0x1B, 0x1B]"
  have X: "?X = START_SEQUENCE @ body @ [0x1A]"
    by (simp add: body_def END_SEQUENCE_def)
  have lenX: "length ?X = 8 + length body + 1"
    unfolding X by (simp add: length_START_SEQUENCE)
  have nomatch: "\<forall>k. 0 < k \<and> k \<le> length body \<longrightarrow>
           \<not> tail_is_end (store (buffer m) (nat (position m)) (take k body)) (nat (position m) + k)"
  proof (intro allI impI)
    fix k assume k: "0 < k \<and> k \<le> length body"
    have tk: "START_SEQUENCE @ take k body = take (8 + k) ?X"
      using k unfolding X by (simp add: length_START_SEQUENCE)
    have "store (buffer m) (nat (position m)) (take k body) = store f 0 (START_SEQUENCE @ take k body)"
      by (simp add: buf pos store_append length_START_SEQUENCE)
    moreover have "tail_is_end (store f 0 (START_SEQUENCE @ take k body)) (8 + k)
        \<longleftrightarrow> end_sequence_at (START_SEQUENCE @ take k body) (8 + k)"
      using k by (intro tail_is_end_store) (simp_all add: length_START_SEQUENCE)
    moreover have "end_sequence_at (START_SEQUENCE @ take k body) (8 + k)
        \<longleftrightarrow> end_sequence_at ?X (8 + k)"
      unfolding tk using k lenX by (intro end_sequence_at_take) simp_all
    moreover have "\<not> end_sequence_at ?X (8 + k)"
      using first k lenX by simp
    ultimately show "\<not> tail_is_end (store (buffer m) (nat (position m)) (take k body))
        (nat (position m) + k)"
      using pos by simp
  qed
  let ?m1 = "m\<lparr>buffer := store (buffer m) (nat (position m)) body,
                position := position m + int (length body)\<rparr>"
  have "read_message_loop (body @ 0x1A # rest) m = read_message_loop (0x1A # rest) ?m1"
    using pos len lenX nomatch by (intro read_loop_body) simp_all
  also have "\<dots> = Some (rest, set_state ST_read_checksum
      (?m1\<lparr>buffer := (buffer ?m1)(nat (position ?m1) := 0x1A), position := position ?m1 + 1\<rparr>))"
  proof -
    have b: "(buffer ?m1)(nat (position ?m1) := 0x1A) = store f 0 ?X"
      unfolding X
      by (simp add: buf pos store_append length_START_SEQUENCE nat_add_distrib)
    have "tail_is_end (store f 0 ?X) (length ?X) \<longleftrightarrow> end_sequence_at ?X (length ?X)"
      using lenX by (intro tail_is_end_store) simp_all
    moreover have "end_sequence_at ?X (length ?X)"
      using end_sequence_at_end[of "START_SEQUENCE @ payload"] by simp
    ultimately have t: "tail_is_end (store f 0 ?X) (length ?X)" by simp
    have p: "nat (position ?m1 + 1) = length ?X"
      using pos lenX by simp
    have "4 \<le> position ?m1" "position ?m1 + 3 < BUFFER_SIZE"
      using pos len lenX by simp_all
    moreover have "tail_is_end ((buffer ?m1)(nat (position ?m1) := 0x1A)) (nat (position ?m1 + 1))"
      unfolding b p using t .
    ultimately show ?thesis by (rule read_loop_step_end)
  qed
  also have "?m1\<lparr>buffer := (buffer ?m1)(nat (position ?m1) := 0x1A), position := position ?m1 + 1\<rparr>
      = m\<lparr>buffer := store f 0 ?X, position := int (length ?X)\<rparr>"
  proof -
    have "(buffer ?m1)(nat (position ?m1) := 0x1A) = store f 0 ?X"
      unfolding X
      by (simp add: buf pos store_append length_START_SEQUENCE nat_add_distrib)
    moreover have "position ?m1 + 1 = int (length ?X)"
      using pos lenX by simp
    ultimately show ?thesis by simp
  qed
  finally have "read_message_loop (payload @ END_SEQUENCE @ rest) m =
      Some (rest, set_state ST_read_checksum
        (m\<lparr>buffer := store f 0 ?X, position := int (length ?X)\<rparr>))"
    by (simp add: body_def END_SEQUENCE_def)
  then have "read_message m = Some ((set_state ST_read_checksum
        (m\<lparr>buffer := store f 0 ?X, position := int (length ?X)\<rparr>))\<lparr>sensor := rest\<rparr>)"
    unfolding read_message_def sen by simp
  then show ?thesis
    using st nt by (simp add: run_current_state_in_time call_state_def)
qed


lemma tick_checksum:
  assumes st: "state m = Some ST_read_checksum" and buc: "bytes_until_checksum m = 3"
    and pos: "0 \<le> position m" "position m + 3 \<le> BUFFER_SIZE"
    and nt: "\<not> timed_out m"
    and sen: "sensor m = [x, y, z] @ rest"
  shows "run_current_state r m =
     Some (set_state ST_process_message
       (m\<lparr>buffer := store (buffer m) (nat (position m)) [x, y, z],
          position := position m + 3, bytes_until_checksum := 0, sensor := rest\<rparr>))"
proof -
  have "read_checksum m = Some (set_state ST_process_message
       (m\<lparr>buffer := store (buffer m) (nat (position m)) [x, y, z],
          position := position m + 3, bytes_until_checksum := 0, sensor := rest\<rparr>))"
    unfolding read_checksum_def sen read_checksum_loop_three[OF buc pos]
    by (simp add: Let_def)
  then show ?thesis
    using st nt by (simp add: run_current_state_in_time call_state_def)
qed

lemma framing:
  assumes st: "state m = Some ST_wait_for_start_sequence" and pos: "position m = 0"
    and nt: "\<not> timed_out m"
    and noise: "\<forall>b\<in>set noise. b \<noteq> 0x1B"
    and d: "d = START_SEQUENCE @ payload @ END_SEQUENCE @ [fill, lo, hi]"
    and first: "\<forall>n < length (START_SEQUENCE @ payload @ END_SEQUENCE).
                  \<not> end_sequence_at (START_SEQUENCE @ payload @ END_SEQUENCE) n"
    and len: "int (length d) \<le> BUFFER_SIZE"
    and sen: "sensor m = noise @ d @ rest"
  shows "ticks 3 r m = Some (framed m d rest)"
proof -
  let ?X = "START_SEQUENCE @ payload @ END_SEQUENCE"
  let ?m1 = "set_state ST_read_message
       (m\<lparr>buffer := store (buffer m) 0 START_SEQUENCE, position := 8,
          sensor := payload @ END_SEQUENCE @ [fill, lo, hi] @ rest\<rparr>)"
  let ?m2 = "set_state ST_read_checksum
       (?m1\<lparr>buffer := store (buffer m) 0 ?X, position := int (length ?X),
          sensor := [fill, lo, hi] @ rest\<rparr>)"
  let ?m3 = "set_state ST_process_message
       (?m2\<lparr>buffer := store (buffer ?m2) (nat (position ?m2)) [fill, lo, hi],
          position := position ?m2 + 3, bytes_until_checksum := 0, sensor := rest\<rparr>)"
  have lenX: "int (length ?X) + 3 \<le> BUFFER_SIZE"
    using len unfolding d by simp
  have t1: "run_current_state r m = Some ?m1"
    using st pos nt noise by (rule tick_start) (simp add: sen d)
  have nt1: "\<not> timed_out ?m1"
    using nt by (simp add: timed_out_def set_state_last_state_reset)
  have t2: "run_current_state r ?m1 = Some ?m2"
    by (rule tick_accumulate[OF _ _ nt1 _ _ first lenX])
       (simp_all add: set_state_position)
  have nt2: "\<not> timed_out ?m2"
    using nt by (simp add: timed_out_def set_state_last_state_reset)
  have t3: "run_current_state r ?m2 = Some ?m3"
    by (rule tick_checksum[OF _ _ _ _ nt2])
       (use lenX in \<open>simp_all add: set_state_position set_state_bytes_until_checksum\<close>)
  have "?m3 = framed m d rest"
    unfolding framed_def d
    by (rule machine.equality)
       (simp_all add: set_state_position set_state_bytes_until_checksum
        set_state_last_state_reset store_append nat_add_distrib add.assoc)
  with t1 t2 t3 show ?thesis
    by (simp add: numeral_3_eq_3 loop_sketch_def)
qed

section \<open>Checksums\<close>

lemma given_checksum_little_endian:
  "given_checksum m =
     uint (buffer m (nat (position m - 2))) + 256 * uint (buffer m (nat (position m - 1)))"
proof -
  have "push_bit 8 (uint hi) OR uint lo = uint lo + 256 * uint hi" for hi lo :: byte
  proof -
    have "take_bit 8 (uint lo) = uint lo"
      by (simp add: take_bit_int_eq_self_iff uint_bounded[where 'a = 8, simplified])
    then have "push_bit 8 (uint hi) OR uint lo = concat_bit 8 (uint lo) (uint hi)"
      by (simp add: concat_bit_def or.commute)
    also have "\<dots> = take_bit 8 (uint lo) + push_bit 8 (uint hi)"
      by (rule concat_bit_eq)
    finally show ?thesis
      using \<open>take_bit 8 (uint lo) = uint lo\<close> by (simp add: push_bit_eq_mult)
  qed
  then show ?thesis by (simp add: given_checksum_def)
qed

lemma map_store_prefix:
  "n \<le> length d \<Longrightarrow> map (store f 0 d) [0..<n] = take n d"
  by (rule nth_equalityI) (simp_all add: store_apply)

lemma funpow8: "(f ^^ 8) x = f (f (f (f (f (f (f (f x)))))))"
  by (simp add: numeral_eq_Suc)

lemmas x25_eval = x25_def crc_update_def crc_shift_def funpow8

lemma x25_frame_empty:
  "x25 [0x1B, 0x1B, 0x1B, 0x1B, 0x01, 0x01, 0x01, 0x01, 0x1B, 0x1B, 0x1B, 0x1B, 0x1A, 0x00]
     = 0xE5C6"
  by (simp add: x25_eval)

lemma x25_check: "x25 [0x31, 0x32, 0x33, 0x34, 0x35, 0x36, 0x37, 0x38, 0x39] = 0x906E"
  by (simp add: x25_eval)

lemma no_early_end:
  assumes "0x1A \<notin> set payload"
  shows "\<forall>n < length (START_SEQUENCE @ payload @ END_SEQUENCE).
           \<not> end_sequence_at (START_SEQUENCE @ payload @ END_SEQUENCE) n"
proof (intro allI impI notI)
  fix n
  let ?X = "START_SEQUENCE @ payload @ END_SEQUENCE"
  let ?Y = "START_SEQUENCE @ payload @ [0x1B, 0x1B, 0x1B, 0x1B]"
  assume n: "n < length ?X" and e: "end_sequence_at ?X n"
  from e have n5: "5 \<le> n" by (simp add: end_sequence_at_def length_END_SEQUENCE)
  with e n have a: "?X ! (n - 1) = 0x1A"
    by (simp add: end_sequence_at_nth)
  have X: "?X = ?Y @ [0x1A]" by (simp add: END_SEQUENCE_def)
  have "length ?X = length ?Y + 1" by (simp add: END_SEQUENCE_def)
  with n n5 have l: "n - 1 < length ?Y" by arith
  have "?X ! (n - 1) = ?Y ! (n - 1)"
    by (subst X) (simp only: nth_append l if_True)
  with a have "?Y ! (n - 1) = 0x1A" by simp
  with l have "0x1A \<in> set ?Y" by (metis nth_mem)
  with assms show False by (auto simp: START_SEQUENCE_def)
qed

lemma reachable_ticks:
  "reachable m \<Longrightarrow> ticks n r m = Some m' \<Longrightarrow> reachable m'"
proof (induction n arbitrary: m)
  case 0
  then show ?case by simp
next
  case (Suc n)
  then show ?case
    by (auto split: Option.bind_splits intro: reachable.tick)
qed

lemma booted_fields:
  "state (feed bs (setup_sketch (power_on t))) = Some ST_wait_for_start_sequence"
  "position (feed bs (setup_sketch (power_on t))) = 0"
  "\<not> timed_out (feed bs (setup_sketch (power_on t)))"
  "sensor (feed bs (setup_sketch (power_on t))) = bs"
  "buffer (feed bs (setup_sketch (power_on t))) = (\<lambda>_. 0)"
  "serial (feed bs (setup_sketch (power_on t))) = [StateIs ST_wait_for_start_sequence]"
  "userm (feed bs (setup_sketch (power_on t))) = 0"
  "usern (feed bs (setup_sketch (power_on t))) = 0"
  "usero (feed bs (setup_sketch (power_on t))) = 0"
  "userp (feed bs (setup_sketch (power_on t))) = 0"
  by (simp_all add: feed_def setup_sketch_def set_state_position timed_out_def
      set_state_last_state_reset power_on_def)

lemma framed_fields:
  "state (framed m d rest) = Some ST_process_message"
  "position (framed m d rest) = int (length d)"
  "buffer (framed m d rest) = store (buffer m) 0 d"
  "sensor (framed m d rest) = rest"
  "serial (framed m d rest) = serial m @
        [StateIs ST_read_message, StateIs ST_read_checksum, StateIs ST_process_message]"
  "userm (framed m d rest) = userm m"
  "usern (framed m d rest) = usern m"
  "usero (framed m d rest) = usero m"
  "userp (framed m d rest) = userp m"
  "millis (framed m d rest) = millis m"
  by (simp_all add: framed_def)

lemma framing_booted:
  assumes "\<forall>b\<in>set noise. b \<noteq> 0x1B"
    and "d = START_SEQUENCE @ payload @ END_SEQUENCE @ [fill, lo, hi]"
    and "0x1A \<notin> set payload"
    and "int (length d) \<le> BUFFER_SIZE"
  shows "ticks 3 r (feed (noise @ d @ rest) (setup_sketch (power_on t)))
           = Some (framed (feed (noise @ d @ rest) (setup_sketch (power_on t))) d rest)"
    and "reachable (framed (feed (noise @ d @ rest) (setup_sketch (power_on t))) d rest)"
proof -
  let ?m = "feed (noise @ d @ rest) (setup_sketch (power_on t))"
  show t: "ticks 3 r ?m = Some (framed ?m d rest)" for r
    by (rule framing[OF _ _ _ assms(1,2) no_early_end[OF assms(3)] assms(4)])
       (simp_all add: booted_fields)
  show "reachable (framed ?m d rest)"
    using reachable_fed_boot t by (rule reachable_ticks)
qed

lemma framed_checksums:
  assumes "2 \<le> length d"
  shows "calculated_checksum (framed m d rest) = uint (x25 (take (length d - 2) d))"
    and "given_checksum (framed m d rest)
           = uint (d ! (length d - 2)) + 256 * uint (d ! (length d - 1))"
proof -
  from assms have "nat (int (length d) - 2) = length d - 2" by simp
  then show "calculated_checksum (framed m d rest) = uint (x25 (take (length d - 2) d))"
    by (simp add: calculated_checksum_def framed_fields map_store_prefix)
  from assms have "nat (int (length d) - 2) = length d - 2" "nat (int (length d) - 1) = length d - 1"
    by simp_all
  moreover from assms have "length d - 2 < length d" "length d - 1 < length d" by arith+
  ultimately show "given_checksum (framed m d rest)
           = uint (d ! (length d - 2)) + 256 * uint (d ! (length d - 1))"
    by (simp add: given_checksum_little_endian framed_fields store_apply)
qed

lemma parse_metrics_frame:
  "parse_metrics pf is m vs = Some (m1, vs') \<Longrightarrow> m1 = m\<lparr>serial := serial m1\<rparr>"
proof (induction "is" arbitrary: m vs)
  case Nil
  then show ?case by simp
next
  case (Cons i "is")
  show ?case
  proof (cases "memmem_P (buffer m) (nat (position m)) (pf i)")
    case None
    with Cons.prems have "parse_metrics pf is m vs = Some (m1, vs')" by simp
    then show ?thesis by (rule Cons.IH)
  next
    case (Some k)
    with Cons.prems obtain v where
      "parse_metrics pf is (println (FoundMetric i) m) (vs(i := v)) = Some (m1, vs')"
      by (auto split: Option.bind_splits)
    from Cons.IH[OF this] have "m1 = (println (FoundMetric i) m)\<lparr>serial := serial m1\<rparr>" .
    then show ?thesis by (simp add: println_def)
  qed
qed


lemma x25_frame_corrupt:
  "x25 [0x1B, 0x1B, 0x1B, 0x1B, 0x01, 0x01, 0x01, 0x01, 0x1B, 0x1B, 0x1B, 0x1B, 0x1A, 0x01]
     = 0xF44F"
  by (simp add: x25_eval)

lemma frame_empty_shape:
  "frame_empty = START_SEQUENCE @ [] @ END_SEQUENCE @ [0x00, 0xC6, 0xE5]"
  "frame_corrupt = START_SEQUENCE @ [] @ END_SEQUENCE @ [0x01, 0xC6, 0xE5]"
  by (simp_all add: frame_empty_def frame_corrupt_def START_SEQUENCE_def END_SEQUENCE_def)

lemma framed_frame_empty:
  "reachable (framed (feed frame_empty (setup_sketch (power_on 0))) frame_empty [])"
  "calculated_checksum (framed (feed frame_empty (setup_sketch (power_on 0))) frame_empty [])
     = given_checksum (framed (feed frame_empty (setup_sketch (power_on 0))) frame_empty [])"
proof -
  have "int (length frame_empty) \<le> BUFFER_SIZE"
    by (simp add: frame_empty_def BUFFER_SIZE_def)
  from framing_booted(2)[where noise = "[]" and d = frame_empty and payload = "[]" and rest = "[]"
      and t = 0, OF _ frame_empty_shape(1) _ this]
  show "reachable (framed (feed frame_empty (setup_sketch (power_on 0))) frame_empty [])"
    by simp
  show "calculated_checksum (framed (feed frame_empty (setup_sketch (power_on 0))) frame_empty [])
     = given_checksum (framed (feed frame_empty (setup_sketch (power_on 0))) frame_empty [])"
    by (subst framed_checksums, simp add: frame_empty_def)
       (subst framed_checksums, simp add: frame_empty_def,
        simp add: frame_empty_def x25_frame_empty)
qed

lemma framed_frame_corrupt:
  "reachable (framed (feed frame_corrupt (setup_sketch (power_on 0))) frame_corrupt [])"
  "calculated_checksum (framed (feed frame_corrupt (setup_sketch (power_on 0))) frame_corrupt [])
     \<noteq> given_checksum (framed (feed frame_corrupt (setup_sketch (power_on 0))) frame_corrupt [])"
proof -
  have "int (length frame_corrupt) \<le> BUFFER_SIZE"
    by (simp add: frame_corrupt_def BUFFER_SIZE_def)
  from framing_booted(2)[where noise = "[]" and d = frame_corrupt and payload = "[]" and rest = "[]"
      and t = 0, OF _ frame_empty_shape(2) _ this]
  show "reachable (framed (feed frame_corrupt (setup_sketch (power_on 0))) frame_corrupt [])"
    by simp
  show "calculated_checksum (framed (feed frame_corrupt (setup_sketch (power_on 0))) frame_corrupt [])
     \<noteq> given_checksum (framed (feed frame_corrupt (setup_sketch (power_on 0))) frame_corrupt [])"
    by (subst framed_checksums, simp add: frame_corrupt_def)
       (subst framed_checksums, simp add: frame_corrupt_def,
        simp add: frame_corrupt_def x25_frame_corrupt)
qed

section \<open>C3: validation of the checksum\<close>

text \<open>
  C3: for a completed datagram of length \<open>L = position\<close> (a reachable sketch in the state
  \<open>process_message\<close>), the computed checksum is the CRC-16/X-25 of the bytes \<open>[0, L-2)\<close>
  and the expected one is read from the bytes \<open>L-2\<close> (low) and \<open>L-1\<close> (high). When they
  differ, \<open>process_message\<close> only resets: the state is \<open>wait_for_start_sequence\<close>,
  \<open>position\<close> is 0, the two lines printed are the mismatch and the new state, and no
  register is written. When they are equal, the metrics are parsed from the sketch as it
  is, and parsing changes neither the buffer nor \<open>position\<close>.
\<close>

theorem C3_checksum_validation:
  assumes "reachable m" "state m = Some ST_process_message"
  shows "calculated_checksum m = uint (x25 (map (buffer m) [0..<nat (position m - 2)])) \<and>
    given_checksum m
      = uint (buffer m (nat (position m - 2))) + 256 * uint (buffer m (nat (position m - 1))) \<and>
    (calculated_checksum m \<noteq> given_checksum m \<longrightarrow>
       process_message r m = Some (reset (Some ChecksumMismatch) m) \<and>
       state (reset (Some ChecksumMismatch) m) = Some ST_wait_for_start_sequence \<and>
       position (reset (Some ChecksumMismatch) m) = 0 \<and>
       serial (reset (Some ChecksumMismatch) m)
         = serial m @ [ChecksumMismatch, StateIs ST_wait_for_start_sequence] \<and>
       userm (reset (Some ChecksumMismatch) m) = userm m \<and>
       usern (reset (Some ChecksumMismatch) m) = usern m \<and>
       usero (reset (Some ChecksumMismatch) m) = usero m \<and>
       userp (reset (Some ChecksumMismatch) m) = userp m) \<and>
    (calculated_checksum m = given_checksum m \<longrightarrow>
       process_message r m =
         do {
           (m1, values) \<leftarrow>
             parse_metrics (pattern_front r) [0..<METRIC_LENGTH] m (values_uninit r);
           m2 \<leftarrow> publish_metrics [0..<METRIC_LENGTH] values m1;
           Some (reset None m2)
         } \<and>
       (\<forall>m1 values.
          parse_metrics (pattern_front r) [0..<METRIC_LENGTH] m (values_uninit r)
            = Some (m1, values)
          \<longrightarrow> buffer m1 = buffer m \<and> position m1 = position m))"
proof -
  from reachable_framer_inv[OF assms(1)] assms(2)
  have rng: "\<not> position m < 2" "\<not> BUFFER_SIZE < position m"
    by (simp_all add: framer_inv_def)
  have frame: "buffer m1 = buffer m \<and> position m1 = position m"
    if "parse_metrics pf is m vs = Some (m1, vs')" for pf "is" vs m1 vs'
  proof -
    from parse_metrics_frame[OF that] have e: "m1 = m\<lparr>serial := serial m1\<rparr>" .
    have "buffer m1 = buffer m" by (subst e) simp
    moreover have "position m1 = position m" by (subst e) simp
    ultimately show ?thesis ..
  qed
  show ?thesis
    using rng frame
    by (simp add: calculated_checksum_def given_checksum_little_endian process_message_def
        reset_serial)
qed

text \<open>
  C3 at two framed datagrams: \<open>frame_empty\<close>, whose checksum matches, and
  \<open>frame_corrupt\<close>, whose fill-count byte was changed after the checksum was computed.
\<close>

theorem C3_checksum_validation_witness:
  "reachable (framed (feed frame_empty (setup_sketch (power_on 0))) frame_empty []) \<and>
   state (framed (feed frame_empty (setup_sketch (power_on 0))) frame_empty [])
     = Some ST_process_message \<and>
   calculated_checksum (framed (feed frame_empty (setup_sketch (power_on 0))) frame_empty [])
     = given_checksum (framed (feed frame_empty (setup_sketch (power_on 0))) frame_empty []) \<and>
   process_message (intended_ram no_values)
       (framed (feed frame_empty (setup_sketch (power_on 0))) frame_empty []) =
     do {
       (m1, values) \<leftarrow>
         parse_metrics (pattern_front (intended_ram no_values)) [0..<METRIC_LENGTH]
           (framed (feed frame_empty (setup_sketch (power_on 0))) frame_empty [])
           (values_uninit (intended_ram no_values));
       m2 \<leftarrow> publish_metrics [0..<METRIC_LENGTH] values m1;
       Some (reset None m2)
     } \<and>
   reachable (framed (feed frame_corrupt (setup_sketch (power_on 0))) frame_corrupt []) \<and>
   state (framed (feed frame_corrupt (setup_sketch (power_on 0))) frame_corrupt [])
     = Some ST_process_message \<and>
   calculated_checksum (framed (feed frame_corrupt (setup_sketch (power_on 0))) frame_corrupt [])
     \<noteq> given_checksum (framed (feed frame_corrupt (setup_sketch (power_on 0))) frame_corrupt []) \<and>
   process_message (intended_ram no_values)
       (framed (feed frame_corrupt (setup_sketch (power_on 0))) frame_corrupt [])
     = Some (reset (Some ChecksumMismatch)
         (framed (feed frame_corrupt (setup_sketch (power_on 0))) frame_corrupt [])) \<and>
   userm (reset (Some ChecksumMismatch)
         (framed (feed frame_corrupt (setup_sketch (power_on 0))) frame_corrupt [])) = 0"
  using
    C3_checksum_validation[OF framed_frame_empty(1) framed_fields(1), of "intended_ram no_values"]
    C3_checksum_validation[OF framed_frame_corrupt(1) framed_fields(1), of "intended_ram no_values"]
    framed_frame_empty framed_frame_corrupt
  by (simp add: framed_fields booted_fields)











section \<open>Evaluating \<open>process_message\<close> on a framed datagram\<close>

lemma metric_indices: "[0..<METRIC_LENGTH] = [0, 1, 2]"
  by (simp add: METRIC_LENGTH_def METRICS_def upt_rec)

lemma value_loop_stop: "nlen = 1 \<Longrightarrow> value_loop nlen cp u m = Some u"
  by (subst value_loop.simps) simp

lemma value_loop_step:
  "nlen \<noteq> 1 \<Longrightarrow>
   value_loop nlen cp u m =
     peek m cp \<bind> (\<lambda>b. value_loop (nlen - 1) (cp + 1) (push_bit 8 u OR ucast b) m)"
  by (subst value_loop.simps) (simp add: Let_def)

lemma peek_println [simp]: "peek (println l m) cp = peek m cp"
  by (simp add: peek_def println_def)

lemma value_loop_println [simp]: "value_loop nlen cp u (println l m) = value_loop nlen cp u m"
proof (induction nlen cp u m rule: value_loop.induct)
  case (1 nlen cp uvalue m)
  show ?case
  proof (cases "nlen = 1")
    case True
    then show ?thesis by (simp add: value_loop_stop)
  next
    case False
    then have "nlen - 1 \<noteq> 0" by simp
    with 1[OF refl this] False show ?thesis
      by (simp add: value_loop_step cong: Option.bind_cong)
  qed
qed

lemma parse_metric_println [simp]: "parse_metric (println l m) k n = parse_metric m k n"
  by (simp add: parse_metric_def)

lemma peek_framed:
  "peek (framed m d rest) cp =
     (if int cp < BUFFER_SIZE then Some (if cp < length d then d ! cp else buffer m cp) else None)"
  by (simp add: peek_def framed_fields store_apply)

lemma memmem_P_framed:
  "memmem_P (buffer (framed m d rest)) (nat (position (framed m d rest))) needle
     = memmem_scan needle d 0"
  by (simp add: memmem_P_def framed_fields map_store_prefix)

lemma memmem_P_println [simp]:
  "memmem_P (buffer (println l m)) (nat (position (println l m))) needle
     = memmem_P (buffer m) (nat (position m)) needle"
  by (simp add: println_def)

lemma publish_value_916: "publish_value \<lparr>mv_value = 916, mv_unit = 0x1E, mv_scaler = 0xFF\<rparr> = Some 91600"
  by code_simp

lemma publish_value_no_values: "publish_value (no_values i) = Some 7000"
  unfolding no_values_def by code_simp

lemma no_values_fields [simp]:
  "mv_value (no_values i) = 7" "mv_unit (no_values i) = 0" "mv_scaler (no_values i) = 0"
  by (simp_all add: no_values_def)

lemma x25_frame_power_in:
  "x25 [0x1B, 0x1B, 0x1B, 0x1B, 0x01, 0x01, 0x01, 0x01,
     0x77, 0x07, 0x01, 0x00, 0x01, 0x08, 0x00, 0xFF,
     0x01, 0x01, 0x62, 0x1E, 0x52, 0xFF, 0x54, 0x00, 0x03, 0x94,
     0x1B, 0x1B, 0x1B, 0x1B, 0x1A, 0x00] = 0xD04E"
  by (simp add: x25_eval)

lemma parse_metric_power_in:
  "parse_metric (framed m frame_power_in rest) 8 8
     = Some \<lparr>mv_value = 916, mv_unit = 0x1E, mv_scaler = 0xFF\<rparr>"
  by (simp add: parse_metric_def peek_framed frame_power_in_def BUFFER_SIZE_def
      value_loop_step value_loop_stop)


lemma checksum_framed_power_in:
  "calculated_checksum (framed m frame_power_in rest) = given_checksum (framed m frame_power_in rest)"
  by (subst framed_checksums, simp add: frame_power_in_def)
     (subst framed_checksums, simp add: frame_power_in_def,
      simp add: frame_power_in_def x25_frame_power_in)

lemma parse_power_in:
  "parse_metrics (pattern_front (intended_ram vs)) [0, 1, 2] (framed m frame_power_in rest) vs
     = Some (println (FoundMetric 0) (framed m frame_power_in rest),
             vs(0 := \<lparr>mv_value = 916, mv_unit = 0x1E, mv_scaler = 0xFF\<rparr>))"
proof -
  have f0: "memmem_scan (snd (METRICS ! 0)) frame_power_in 0 = Some 8"
    by (simp add: METRICS_def frame_power_in_def)
  have f1: "memmem_scan (snd (METRICS ! Suc 0)) frame_power_in 0 = None"
    by (simp add: METRICS_def frame_power_in_def)
  have f2: "memmem_scan (snd (METRICS ! 2)) frame_power_in 0 = None"
    by (simp add: METRICS_def frame_power_in_def)
  have l0: "length (snd (METRICS ! 0)) = 8"
    by (simp add: METRICS_def)
  show ?thesis
    by (simp add: intended_ram_def memmem_P_framed f0 f1 f2 l0 parse_metric_power_in)
qed

lemma process_power_in:
  "process_message (intended_ram no_values) (framed m frame_power_in rest)
     = Some (reset None
         ((framed m frame_power_in rest)
            \<lparr>userm := 91600, usern := 7000, usero := 7000,
             serial := serial (framed m frame_power_in rest) @
               [FoundMetric 0, PublishedMetric 0 916 0x1E 0xFF,
                PublishedMetric 1 7 0 0, PublishedMetric 2 7 0 0]\<rparr>))"
proof -
  let ?M = "framed m frame_power_in rest"
  let ?vs = "no_values(0 := \<lparr>mv_value = 916, mv_unit = 0x1E, mv_scaler = 0xFF\<rparr>)"
  have rng: "\<not> position ?M < 2" "\<not> BUFFER_SIZE < position ?M"
    by (simp_all add: framed_fields frame_power_in_def BUFFER_SIZE_def)
  have pub: "publish_metrics [0, 1, 2] ?vs (println (FoundMetric 0) ?M)
      = Some (?M\<lparr>userm := 91600, usern := 7000, usero := 7000,
             serial := serial ?M @
               [FoundMetric 0, PublishedMetric 0 916 0x1E 0xFF,
                PublishedMetric 1 7 0 0, PublishedMetric 2 7 0 0]\<rparr>)"
    by (simp add: publish_value_916 publish_value_no_values write_slot_def println_def
        no_values_fields)
  have par: "parse_metrics (pattern_front (intended_ram no_values)) [0, 1, 2] ?M
      (values_uninit (intended_ram no_values)) = Some (println (FoundMetric 0) ?M, ?vs)"
    using parse_power_in[of no_values m rest]
    by (simp add: intended_ram_def del: parse_metrics.simps)
  show ?thesis
    unfolding process_message_def metric_indices par
    using rng checksum_framed_power_in[of m rest]
    by (simp add: pub del: parse_metrics.simps publish_metrics.simps One_nat_def)
qed





section \<open>C2: one datagram in a stream of noise\<close>



lemma partial_match_fields:
  "state partial_match = Some ST_wait_for_start_sequence" "position partial_match = 3"
  "sensor partial_match = []" "millis partial_match = 30001"
  "last_state_reset partial_match = 0"
  "serial partial_match = [StateIs ST_wait_for_start_sequence]"
  by (simp_all add: partial_match_def setup_sketch_def set_state_last_state_reset power_on_def)

lemma reachable_partial_match: "reachable partial_match"
proof -
  let ?m = "feed [0x1B, 0x1B, 0x1B] (setup_sketch (power_on 0))"
  have "wait_for_start_sequence_loop [0x1B, 0x1B, 0x1B] ?m
     = Some ([], ?m\<lparr>buffer := store (\<lambda>_. 0) 0 [0x1B, 0x1B, 0x1B], position := 3\<rparr>)"
    by (simp add: Let_def frame_consts booted_fields eval_nat_numeral)
  then have "wait_for_start_sequence ?m
     = Some (?m\<lparr>buffer := store (\<lambda>_. 0) 0 [0x1B, 0x1B, 0x1B], position := 3, sensor := []\<rparr>)"
    unfolding wait_for_start_sequence_def booted_fields(4) by simp
  then have "loop_sketch r ?m
     = Some (?m\<lparr>buffer := store (\<lambda>_. 0) 0 [0x1B, 0x1B, 0x1B], position := 3, sensor := []\<rparr>)"
    for r
    by (simp add: loop_sketch_def
        run_current_state_in_time[OF booted_fields(1) booted_fields(3)] call_state_def)
  with reachable_fed_boot
  have "reachable (?m\<lparr>buffer := store (\<lambda>_. 0) 0 [0x1B, 0x1B, 0x1B], position := 3, sensor := []\<rparr>)"
    by (rule reachable.tick)
  then have "reachable (?m\<lparr>buffer := store (\<lambda>_. 0) 0 [0x1B, 0x1B, 0x1B], position := 3,
      sensor := [], millis := 30001\<rparr>)"
    by (rule reachable.timer)
  moreover have "?m\<lparr>buffer := store (\<lambda>_. 0) 0 [0x1B, 0x1B, 0x1B], position := 3,
      sensor := [], millis := 30001\<rparr> = partial_match"
    unfolding partial_match_def
    by (rule machine.equality)
       (simp_all add: feed_def setup_sketch_def power_on_def set_state_last_state_reset
          set_state_bytes_until_checksum set_state_position)
  ultimately show ?thesis by simp
qed

section \<open>C10: the watchdog\<close>

text \<open>
  C10 says that the watchdog never resets a sketch that waits for the start sequence.
  \<open>run_current_state\<close> does not look at the state before it compares the times: the
  reachable sketch \<open>partial_match\<close>, which waits for the start sequence and has matched
  three of its bytes, is reset; its cursor goes back to 0 and the timeout line is
  printed.
\<close>

theorem C10_counterexample:
  "reachable partial_match \<and>
   state partial_match = Some ST_wait_for_start_sequence \<and>
   position partial_match = 3 \<and>
   run_current_state (intended_ram no_values) partial_match
     = Some (reset None (println DidNotReceive partial_match)) \<and>
   position (reset None (println DidNotReceive partial_match)) = 0 \<and>
   serial (reset None (println DidNotReceive partial_match))
     = [StateIs ST_wait_for_start_sequence, DidNotReceive, StateIs ST_wait_for_start_sequence]"
proof -
  let ?m1 = "reset None (println DidNotReceive partial_match)"
  have to: "timed_out partial_match"
    by (simp add: timed_out_def partial_match_fields READ_TIMEOUT_def)
  have "?m1\<lparr>sensor := []\<rparr> = ?m1"
    by (rule machine.equality) (simp_all add: println_def partial_match_fields)
  then have "wait_for_start_sequence ?m1 = Some ?m1"
    by (simp add: wait_for_start_sequence_def println_def partial_match_fields)
  with to have "run_current_state (intended_ram no_values) partial_match = Some ?m1"
    by (simp add: run_current_state_def timed_out_def partial_match_fields call_state_def)
  then show ?thesis
    by (simp add: reachable_partial_match partial_match_fields reset_serial println_def)
qed

text \<open>
  C10, amended: in every state, \<open>wait_for_start_sequence\<close> included, a call of
  \<open>run_current_state\<close> resets the sketch exactly when \<open>millis() - last_state_reset\<close>,
  a difference of 32-bit unsigned numbers, exceeds 30000; the reset sets \<open>position\<close> to 0
  and \<open>last_state_reset\<close> to the time, and the state function called afterwards is
  \<open>wait_for_start_sequence\<close>. Otherwise the state function of the current state runs.
\<close>

theorem C10_watchdog_in_every_state:
  assumes "state m = Some s"
  shows "READ_TIMEOUT * 1000 = 30000 \<and>
    run_current_state r m =
      (if 30000 < millis m - last_state_reset m
       then wait_for_start_sequence (reset None (println DidNotReceive m))
       else call_state s r m) \<and>
    state (reset None (println DidNotReceive m)) = Some ST_wait_for_start_sequence \<and>
    position (reset None (println DidNotReceive m)) = 0 \<and>
    last_state_reset (reset None (println DidNotReceive m)) = millis m"
  using assms
  by (simp add: run_current_state_def READ_TIMEOUT_def call_state_def println_def)

text \<open>The amended C10 at \<open>partial_match\<close>.\<close>

theorem C10_watchdog_in_every_state_witness:
  "state partial_match = Some ST_wait_for_start_sequence \<and>
   30000 < millis partial_match - last_state_reset partial_match \<and>
   run_current_state (intended_ram no_values) partial_match
     = wait_for_start_sequence (reset None (println DidNotReceive partial_match)) \<and>
   position (reset None (println DidNotReceive partial_match)) = 0"
  using C10_watchdog_in_every_state[OF partial_match_fields(1), of "intended_ram no_values"]
  by (simp add: partial_match_fields)

section \<open>C1: metrics whose pattern is absent\<close>

text \<open>
  C1 says that a metric whose pattern does not occur in the datagram is not published
  and that its register is left alone. The publish loop of \<open>process_message\<close> runs over
  all three metrics and never asks whether the pattern was found (the parse loop does):
  for an absent pattern it publishes what the uninitialised entry of \<open>values\<close> holds.
  In \<open>frame_power_in\<close> the second pattern is absent; the second register, 0 before,
  is 7000 afterwards, from the stack content \<open>no_values\<close>, and the line that reports the
  publication is printed.
\<close>

theorem C1_absent_metrics_published:
  "memmem_P (buffer (framed (feed frame_power_in (setup_sketch (power_on 0))) frame_power_in []))
      (nat (position (framed (feed frame_power_in (setup_sketch (power_on 0))) frame_power_in [])))
      (snd (METRICS ! 1)) = None \<and>
   usern (framed (feed frame_power_in (setup_sketch (power_on 0))) frame_power_in []) = 0 \<and>
   process_message (intended_ram no_values)
       (framed (feed frame_power_in (setup_sketch (power_on 0))) frame_power_in []) \<noteq> None \<and>
   usern (the (process_message (intended_ram no_values)
       (framed (feed frame_power_in (setup_sketch (power_on 0))) frame_power_in []))) = 7000 \<and>
   PublishedMetric 1 7 0 0 \<in> set (serial (the (process_message (intended_ram no_values)
       (framed (feed frame_power_in (setup_sketch (power_on 0))) frame_power_in []))))"
proof -
  have "memmem_scan (snd (METRICS ! 1)) frame_power_in 0 = None"
    by (simp add: METRICS_def frame_power_in_def)
  then show ?thesis
    unfolding process_power_in memmem_P_framed
    by (simp add: framed_fields booted_fields reset_serial)
qed

section \<open>The walk over the sub-fields\<close>

lemma value_loop_fold:
  "int (cp + unat (nlen - 1)) \<le> BUFFER_SIZE \<Longrightarrow>
   value_loop nlen cp u m =
     Some (foldl (\<lambda>u b. push_bit 8 u OR ucast b) u
             (map (buffer m) [cp..<cp + unat (nlen - 1)]))"
proof (induction nlen cp u m rule: value_loop.induct)
  case (1 nlen cp uvalue m)
  show ?case
  proof (cases "nlen = 1")
    case True
    then show ?thesis by (simp add: value_loop_stop)
  next
    case False
    then have nz: "nlen - 1 \<noteq> 0" by simp
    then have pos: "0 < unat (nlen - 1)" by (simp add: unat_gt_0)
    have "unat (nlen - 1 - 1) = unat (nlen - 1) - 1"
      using nz by (rule unat_minus_one)
    with pos have un: "unat (nlen - 1) = Suc (unat (nlen - 1 - 1))" by linarith
    from "1.prems" un have rng: "int cp < BUFFER_SIZE"
      "int (cp + 1 + unat (nlen - 1 - 1)) \<le> BUFFER_SIZE"
      by linarith+
    have pk: "peek m cp = Some (buffer m cp)"
      using rng(1) by (simp add: peek_def)
    have upt: "[cp..<cp + unat (nlen - 1)] = cp # [cp + 1..<cp + 1 + unat (nlen - 1 - 1)]"
      unfolding un by (simp add: upt_rec)
    have "value_loop nlen cp uvalue m =
        value_loop (nlen - 1) (cp + 1) (push_bit 8 uvalue OR ucast (buffer m cp)) m"
      using False rng(1) by (simp add: value_loop_step peek_def)
    also have "\<dots> = Some (foldl (\<lambda>u b. push_bit 8 u OR ucast b)
                (push_bit 8 uvalue OR ucast (buffer m cp))
                (map (buffer m) [cp + 1..<cp + 1 + unat (nlen - 1 - 1)]))"
      by (rule "1.IH"[OF refl nz pk rng(2)])
    finally show ?thesis unfolding upt by simp
  qed
qed

lemma value_loop_len_0:
  assumes "int (cp + 255) \<le> BUFFER_SIZE"
  shows "value_loop 0 cp u m =
     Some (foldl (\<lambda>u b. push_bit 8 u OR ucast b) u (map (buffer m) [cp..<cp + 255]))"
proof -
  have "unat (0 - 1 :: byte) = 255" by (simp add: unsigned_minus_1_eq_mask mask_eq_exp_minus_1)
  then show ?thesis using assms value_loop_fold [of cp 0 u m] by (simp only:)
qed

lemma foldl_zero_bytes:
  "foldl (\<lambda>u b. push_bit 8 u OR ucast b) u (replicate n (0::byte)) = push_bit (8 * n) (u::64 word)"
proof (induction n arbitrary: u)
  case 0
  show ?case by simp
next
  case (Suc n)
  show ?case by (simp add: Suc.IH push_bit_push_bit add.commute)
qed

lemma map_buffer_framed_within:
  "a \<le> b \<Longrightarrow> b \<le> length d \<Longrightarrow>
   map (buffer (framed m d rest)) [a..<b] = take (b - a) (drop a d)"
  by (rule nth_equalityI) (auto simp add: framed_fields store_apply)

lemma map_buffer_framed_beyond:
  "length d \<le> a \<Longrightarrow> map (buffer (framed m d rest)) [a..<b] = map (buffer m) [a..<b]"
  by (simp add: framed_fields store_apply)

lemma map_zero_buffer: "map (\<lambda>_. 0::byte) [a..<b] = replicate (b - a) 0"
  by (simp add: map_replicate_const)

lemma map_buffer_booted_beyond:
  "length d \<le> a \<Longrightarrow>
   map (buffer (framed (feed bs (setup_sketch (power_on t))) d rest)) [a..<b] = replicate (b - a) 0"
  by (simp add: map_buffer_framed_beyond booted_fields map_replicate_const)

lemma upt_split: "a \<le> b \<Longrightarrow> b \<le> c \<Longrightarrow> [a..<c] = [a..<b] @ [b..<c]"
  by (metis le_Suc_ex upt_add_eq_append)

lemma value_loop_claim:
  "value_loop 0 18 0 (framed (feed bs (setup_sketch (power_on t))) frame_claim rest) = Some 0"
proof -
  have len: "length frame_claim \<le> 36" by (simp add: frame_claim_def)
  show ?thesis
    apply (subst value_loop_len_0, simp add: BUFFER_SIZE_def)
    apply (subst upt_split [of 18 36], simp, simp)
    apply (simp only: map_append foldl_append map_buffer_booted_beyond [OF len] foldl_zero_bytes)
    apply simp
    done
qed

lemma parse_metric_claim:
  "parse_metric (framed (feed bs (setup_sketch (power_on t))) frame_claim rest) 8 8
     = Some \<lparr>mv_value = 0, mv_unit = 1, mv_scaler = 1\<rparr>"
  by (simp add: parse_metric_def peek_framed frame_claim_def
      value_loop_claim [unfolded frame_claim_def] BUFFER_SIZE_def)

section \<open>C5: the example of the spec\<close>

lemma map_upt_nth:
  "map f [a..<a + n] = xs \<Longrightarrow> j < n \<Longrightarrow> f (a + j) = xs ! j"
  by (metis add_diff_cancel_left' nth_map_upt)

lemma publish_single:
  assumes "publish_value v = Some w" "i < METRIC_LENGTH"
  shows "publish_metrics [i] (vs(i := v)) m =
      Some (println (PublishedMetric i (mv_value v) (mv_unit v) (mv_scaler v))
             (if i = 0 then m\<lparr>userm := w\<rparr> else if i = 1 then m\<lparr>usern := w\<rparr>
              else m\<lparr>usero := w\<rparr>))"
proof -
  from assms(2) have "i = 0 \<or> i = 1 \<or> i = 2"
    by (auto simp add: METRIC_LENGTH_def METRICS_def)
  then show ?thesis
    using assms(1) by (auto simp add: write_slot_def)
qed

lemma x25_frame_claim:
  "x25 [0x1B, 0x1B, 0x1B, 0x1B, 0x01, 0x01, 0x01, 0x01,
     0x77, 0x07, 0x01, 0x00, 0x01, 0x08, 0x00, 0xFF,
     0x01, 0x00, 0x01, 0x00, 0x01, 0x1E, 0x01, 0xFF,
     0x59, 0x00, 0x03, 0x94, 0x1B, 0x1B, 0x1B, 0x1B,
     0x1A, 0x00] = 0x8F38"
  by (simp add: x25_eval)

text \<open>
  C5 at the bytes of its example. In \<open>frame_claim\<close> the first pattern stands at the offsets
  8 to 15 and the twelve bytes \<open>01 00 01 00 01 1E 01 FF 59 00 03 94\<close> follow it at the
  offsets 16 to 27. The status byte \<open>01\<close> advances the cursor by one; the time byte \<open>00\<close>
  advances it by nothing, so the same byte \<open>00\<close> is read as the header of the unit and of
  the scaler, and the byte after it, \<open>01\<close>, is both unit and scaler. The walk that starts
  after the pattern decodes unit 1 and scaler 1, not \<open>0x1E\<close> and -1; in the freshly booted
  sketch that has framed \<open>frame_claim\<close>, whose checksum is valid, the value it decodes is 0,
  not 916. \<open>parse_metric\<close> at offset 8 is the walk that \<open>process_message\<close> performs when
  the search reports the pattern there.
\<close>

theorem C5_counterexample:
  "reachable (framed (feed frame_claim (setup_sketch (power_on 0))) frame_claim []) \<and>
   calculated_checksum (framed (feed frame_claim (setup_sketch (power_on 0))) frame_claim [])
     = given_checksum (framed (feed frame_claim (setup_sketch (power_on 0))) frame_claim []) \<and>
   map (buffer (framed (feed frame_claim (setup_sketch (power_on 0))) frame_claim [])) [8..<16]
     = snd (METRICS ! 0) \<and>
   map (buffer (framed (feed frame_claim (setup_sketch (power_on 0))) frame_claim [])) [16..<28]
     = [0x01, 0x00, 0x01, 0x00, 0x01, 0x1E, 0x01, 0xFF, 0x59, 0x00, 0x03, 0x94] \<and>
   parse_metric (framed (feed frame_claim (setup_sketch (power_on 0))) frame_claim []) 8
       (length (snd (METRICS ! 0)))
     = Some \<lparr>mv_value = 0, mv_unit = 1, mv_scaler = 1\<rparr>"
proof -
  have l0: "length (snd (METRICS ! 0)) = 8"
    by (simp add: METRICS_def)
  have shape: "frame_claim = START_SEQUENCE
      @ [0x77, 0x07, 0x01, 0x00, 0x01, 0x08, 0x00, 0xFF,
         0x01, 0x00, 0x01, 0x00, 0x01, 0x1E, 0x01, 0xFF, 0x59, 0x00, 0x03, 0x94]
      @ END_SEQUENCE @ [0x00, 0x38, 0x8F]"
    by (simp add: frame_claim_def START_SEQUENCE_def END_SEQUENCE_def)
  have len: "int (length frame_claim) \<le> BUFFER_SIZE"
    by (simp add: frame_claim_def BUFFER_SIZE_def)
  from framing_booted(2) [where noise = "[]" and d = frame_claim and rest = "[]" and t = 0,
      OF _ shape _ len]
  have re: "reachable (framed (feed frame_claim (setup_sketch (power_on 0))) frame_claim [])"
    by simp
  have crc: "calculated_checksum
      (framed (feed frame_claim (setup_sketch (power_on 0))) frame_claim [])
     = given_checksum (framed (feed frame_claim (setup_sketch (power_on 0))) frame_claim [])"
    by (subst framed_checksums, simp add: frame_claim_def)
       (subst framed_checksums, simp add: frame_claim_def,
        simp add: frame_claim_def x25_frame_claim)
  have pat: "map (buffer (framed (feed frame_claim (setup_sketch (power_on 0))) frame_claim []))
      [8..<16] = snd (METRICS ! 0)"
    by (subst map_buffer_framed_within) (simp_all add: frame_claim_def METRICS_def)
  have bytes: "map (buffer (framed (feed frame_claim (setup_sketch (power_on 0))) frame_claim []))
      [16..<28] = [0x01, 0x00, 0x01, 0x00, 0x01, 0x1E, 0x01, 0xFF, 0x59, 0x00, 0x03, 0x94]"
    by (subst map_buffer_framed_within) (simp_all add: frame_claim_def)
  have pm: "parse_metric (framed (feed frame_claim (setup_sketch (power_on 0))) frame_claim []) 8
       (length (snd (METRICS ! 0)))
     = Some \<lparr>mv_value = 0, mv_unit = 1, mv_scaler = 1\<rparr>"
    unfolding l0 by (rule parse_metric_claim)
  show ?thesis
    by (intro conjI re crc pat bytes pm)
qed

text \<open>
  C5, with the sub-fields in the encoding that the walk reads: a status field \<open>01\<close>, a time
  field \<open>01\<close>, the unit field \<open>62 1E\<close>, the scaler field \<open>52 FF\<close> and the value field
  \<open>54 00 03 94\<close>. When these ten bytes follow a pattern of eight bytes found at offset \<open>k\<close>,
  wherever in the buffer, the walk decodes unit \<open>0x1E\<close>, scaler -1 and value 916, and
  publishing that triple as the metric of index \<open>i\<close> writes 91600 to the register of that
  index and prints the line that reports it.
\<close>

theorem C5_example_decoding:
  assumes "map (buffer m) [k + 8..<k + 8 + 10]
             = [0x01, 0x01, 0x62, 0x1E, 0x52, 0xFF, 0x54, 0x00, 0x03, 0x94]"
    and "int (k + 8 + 10) \<le> BUFFER_SIZE"
    and "i < METRIC_LENGTH"
  shows "parse_metric m k 8 = Some \<lparr>mv_value = 916, mv_unit = 0x1E, mv_scaler = 0xFF\<rparr> \<and>
    sint (mv_scaler \<lparr>mv_value = 916, mv_unit = 0x1E, mv_scaler = 0xFF\<rparr>) = - 1 \<and>
    sint (mv_value \<lparr>mv_value = 916, mv_unit = 0x1E, mv_scaler = 0xFF\<rparr>) = 916 \<and>
    publish_value \<lparr>mv_value = 916, mv_unit = 0x1E, mv_scaler = 0xFF\<rparr> = Some 91600 \<and>
    publish_metrics [i] (vs(i := \<lparr>mv_value = 916, mv_unit = 0x1E, mv_scaler = 0xFF\<rparr>)) m1 =
      Some (println (PublishedMetric i 916 0x1E 0xFF)
             (if i = 0 then m1\<lparr>userm := 91600\<rparr> else if i = 1 then m1\<lparr>usern := 91600\<rparr>
              else m1\<lparr>usero := 91600\<rparr>))"
proof -
  note b = map_upt_nth [OF assms(1)]
  have bs: "buffer m (k + 8) = 0x01" "buffer m (k + 9) = 0x01" "buffer m (k + 10) = 0x62"
    "buffer m (k + 11) = 0x1E" "buffer m (k + 12) = 0x52" "buffer m (k + 13) = 0xFF"
    "buffer m (k + 14) = 0x54" "buffer m (k + 15) = 0x00" "buffer m (k + 16) = 0x03"
    "buffer m (k + 17) = 0x94"
    using b [of 0] b [of 1] b [of 2] b [of 3] b [of 4] b [of 5] b [of 6] b [of 7] b [of 8] b [of 9]
    by (simp_all add: ac_simps)
  have pk: "peek m (k + 8) = Some 0x01" "peek m (k + 9) = Some 0x01" "peek m (k + 10) = Some 0x62"
    "peek m (k + 11) = Some 0x1E" "peek m (k + 12) = Some 0x52" "peek m (k + 13) = Some 0xFF"
    "peek m (k + 14) = Some 0x54" "peek m (k + 15) = Some 0x00" "peek m (k + 16) = Some 0x03"
    "peek m (k + 17) = Some 0x94"
    using assms(2) by (simp_all add: peek_def bs)
  have parse: "parse_metric m k 8 = Some \<lparr>mv_value = 916, mv_unit = 0x1E, mv_scaler = 0xFF\<rparr>"
    by (simp add: parse_metric_def pk pk [unfolded add.commute [of k]] add.assoc
        value_loop_step value_loop_stop)
  have pub: "publish_metrics [i] (vs(i := \<lparr>mv_value = 916, mv_unit = 0x1E, mv_scaler = 0xFF\<rparr>)) m1 =
      Some (println (PublishedMetric i 916 0x1E 0xFF)
             (if i = 0 then m1\<lparr>userm := 91600\<rparr> else if i = 1 then m1\<lparr>usern := 91600\<rparr>
              else m1\<lparr>usero := 91600\<rparr>))"
    using publish_single [OF publish_value_916 assms(3), of vs m1] by simp
  show ?thesis
    using parse pub by (simp add: publish_value_916)
qed

text \<open>C5 at \<open>frame_power_in\<close>, framed by a freshly booted sketch: the pattern is at offset 8.\<close>

theorem C5_example_decoding_witness:
  "map (buffer (framed (feed frame_power_in (setup_sketch (power_on 0))) frame_power_in []))
       [8 + 8..<8 + 8 + 10]
     = [0x01, 0x01, 0x62, 0x1E, 0x52, 0xFF, 0x54, 0x00, 0x03, 0x94] \<and>
   int (8 + 8 + 10) \<le> BUFFER_SIZE \<and> 0 < METRIC_LENGTH \<and>
   parse_metric (framed (feed frame_power_in (setup_sketch (power_on 0))) frame_power_in []) 8 8
     = Some \<lparr>mv_value = 916, mv_unit = 0x1E, mv_scaler = 0xFF\<rparr> \<and>
   publish_metrics [0] (no_values(0 := \<lparr>mv_value = 916, mv_unit = 0x1E, mv_scaler = 0xFF\<rparr>))
       (framed (feed frame_power_in (setup_sketch (power_on 0))) frame_power_in []) =
      Some (println (PublishedMetric 0 916 0x1E 0xFF)
             ((framed (feed frame_power_in (setup_sketch (power_on 0))) frame_power_in [])
                \<lparr>userm := 91600\<rparr>))"
proof -
  have h1: "map (buffer (framed (feed frame_power_in (setup_sketch (power_on 0))) frame_power_in []))
       [8 + 8..<8 + 8 + 10]
     = [0x01, 0x01, 0x62, 0x1E, 0x52, 0xFF, 0x54, 0x00, 0x03, 0x94]"
    by (subst map_buffer_framed_within) (simp_all add: frame_power_in_def)
  have h2: "int (8 + 8 + 10) \<le> BUFFER_SIZE" by (simp add: BUFFER_SIZE_def)
  have h3: "0 < METRIC_LENGTH" by (simp add: METRIC_LENGTH_def METRICS_def)
  note inst = C5_example_decoding [OF h1 h2 h3, of no_values
        "framed (feed frame_power_in (setup_sketch (power_on 0))) frame_power_in []"]
  from inst have p1:
    "parse_metric (framed (feed frame_power_in (setup_sketch (power_on 0))) frame_power_in []) 8 8
     = Some \<lparr>mv_value = 916, mv_unit = 0x1E, mv_scaler = 0xFF\<rparr>"
    by (rule conjunct1)
  from inst have p5:
    "publish_metrics [0] (no_values(0 := \<lparr>mv_value = 916, mv_unit = 0x1E, mv_scaler = 0xFF\<rparr>))
       (framed (feed frame_power_in (setup_sketch (power_on 0))) frame_power_in []) =
      Some (println (PublishedMetric 0 916 0x1E 0xFF)
             ((framed (feed frame_power_in (setup_sketch (power_on 0))) frame_power_in [])
                \<lparr>userm := 91600\<rparr>))"
    by (simp only: refl if_True)
  show ?thesis
    by (intro conjI h1 h2 h3 p1 p5)
qed

section \<open>C6: the value field\<close>

lemma parse_metric_unsigned:
  "parse_metric (framed m frame_unsigned rest) 8 8
     = Some \<lparr>mv_value = 0xFFFFFFFFFFFFFFFF, mv_unit = 0x1E, mv_scaler = 0x00\<rparr>"
  by (simp add: parse_metric_def peek_framed frame_unsigned_def BUFFER_SIZE_def
      value_loop_step value_loop_stop)

lemma parse_metric_signed:
  "parse_metric (framed m frame_signed rest) 8 8
     = Some \<lparr>mv_value = 0xFFFFFFFFFFFFFFFF, mv_unit = 0x1E, mv_scaler = 0x00\<rparr>"
  by (simp add: parse_metric_def peek_framed frame_signed_def BUFFER_SIZE_def
      value_loop_step value_loop_stop)

lemma double_of_int64_ones: "double_of_int64 0xFFFFFFFFFFFFFFFF = - 1"
  by code_simp

lemma publish_value_ones:
  "publish_value \<lparr>mv_value = 0xFFFFFFFFFFFFFFFF, mv_unit = 0x1E, mv_scaler = 0x00\<rparr> = None"
  by code_simp

lemma value_header_byte:
  "frame_unsigned ! 22 AND 0x70 = 0x60" "frame_signed ! 22 AND 0x70 = 0x50"
  by (simp_all add: frame_unsigned_def frame_signed_def)

text \<open>
  C6 says that \<open>len - 1\<close> bytes after the header are accumulated and that the result is
  read as signed exactly when the type is \<open>0x50\<close>. What the code does with a value field
  whose header \<open>h\<close> stands at \<open>cp\<close>: it accumulates, big-endian, the
  \<open>unat ((h AND 0x0f) - 1)\<close> bytes after the header, the subtraction being the one of
  \<open>uint8_t\<close>. That is \<open>len - 1\<close> bytes when \<open>len\<close> is not 0, and 255 bytes when it is 0.
  The type takes no part: \<open>frame_unsigned\<close> (type \<open>0x60\<close>) and \<open>frame_signed\<close> (type
  \<open>0x50\<close>), each with eight payload bytes \<open>FF\<close>, give the same 64 bits, which are stored in
  the \<open>int64_t\<close> field and converted as the signed number -1; the product -1000 is then
  outside of what the cast to \<open>uint32_t\<close> defines.
\<close>

theorem C6_value_field:
  assumes "int (cp + 1 + unat ((h AND 0x0f) - 1)) \<le> BUFFER_SIZE"
  shows "value_loop (h AND 0x0f) (cp + 1) 0 m
      = Some (foldl (\<lambda>u b. push_bit 8 u OR ucast b) 0
                (map (buffer m) [cp + 1..<cp + 1 + unat ((h AND 0x0f) - 1)])) \<and>
    (h AND 0x0f \<noteq> 0 \<longrightarrow> unat ((h AND 0x0f) - 1) = unat (h AND 0x0f) - 1) \<and>
    (h AND 0x0f = 0 \<longrightarrow> unat ((h AND 0x0f) - 1) = 255) \<and>
    frame_unsigned ! 22 AND 0x70 = 0x60 \<and> frame_signed ! 22 AND 0x70 = 0x50 \<and>
    parse_metric (framed m frame_unsigned rest) 8 8
      = Some \<lparr>mv_value = 0xFFFFFFFFFFFFFFFF, mv_unit = 0x1E, mv_scaler = 0x00\<rparr> \<and>
    parse_metric (framed m frame_signed rest) 8 8
      = Some \<lparr>mv_value = 0xFFFFFFFFFFFFFFFF, mv_unit = 0x1E, mv_scaler = 0x00\<rparr> \<and>
    double_of_int64 0xFFFFFFFFFFFFFFFF = - 1 \<and>
    publish_value \<lparr>mv_value = 0xFFFFFFFFFFFFFFFF, mv_unit = 0x1E, mv_scaler = 0x00\<rparr> = None"
proof -
  have "unat ((0::byte) - 1) = 255"
    by (simp add: unsigned_minus_1_eq_mask mask_eq_exp_minus_1)
  then have z: "h AND 0x0f = 0 \<longrightarrow> unat ((h AND 0x0f) - 1) = 255"
    by simp
  have nz: "h AND 0x0f \<noteq> 0 \<longrightarrow> unat ((h AND 0x0f) - 1) = unat (h AND 0x0f) - 1"
    by (simp add: unat_minus_one)
  show ?thesis
    using value_loop_fold [OF assms, of 0 m] z nz
    by (simp only: parse_metric_unsigned parse_metric_signed double_of_int64_ones
        publish_value_ones value_header_byte simp_thms)
qed

text \<open>
  C6 at the value field \<open>54 00 03 94\<close> of \<open>frame_power_in\<close> (three bytes, 916) and at the
  header \<open>00\<close> read in \<open>frame_claim\<close> (255 bytes, of which the last eight are 0).
\<close>

theorem C6_value_field_witness:
  "int (22 + 1 + unat (((0x54::byte) AND 0x0f) - 1)) \<le> BUFFER_SIZE \<and>
   (0x54::byte) AND 0x0f \<noteq> 0 \<and>
   value_loop ((0x54::byte) AND 0x0f) (22 + 1) 0
       (framed (feed frame_power_in (setup_sketch (power_on 0))) frame_power_in []) = Some 916 \<and>
   unat (((0x54::byte) AND 0x0f) - 1) = 3 \<and>
   int (17 + 1 + unat (((0x00::byte) AND 0x0f) - 1)) \<le> BUFFER_SIZE \<and>
   (0x00::byte) AND 0x0f = 0 \<and>
   value_loop ((0x00::byte) AND 0x0f) (17 + 1) 0
       (framed (feed frame_claim (setup_sketch (power_on 0))) frame_claim []) = Some 0 \<and>
   unat (((0x00::byte) AND 0x0f) - 1) = 255"
proof -
  have h1: "int (22 + 1 + unat (((0x54::byte) AND 0x0f) - 1)) \<le> BUFFER_SIZE"
    by (simp add: BUFFER_SIZE_def)
  have h2: "int (17 + 1 + unat (((0x00::byte) AND 0x0f) - 1)) \<le> BUFFER_SIZE"
    by (simp add: BUFFER_SIZE_def unsigned_minus_1_eq_mask mask_eq_exp_minus_1)
  have e1: "(0x54::byte) AND 0x0f \<noteq> 0" by simp
  have e2: "(0x00::byte) AND 0x0f = 0" by simp
  note i1 = C6_value_field [OF h1, of "framed (feed frame_power_in (setup_sketch (power_on 0))) frame_power_in []"]
  note i2 = C6_value_field [OF h2, of "framed (feed frame_claim (setup_sketch (power_on 0))) frame_claim []"]
  have u1: "unat (((0x54::byte) AND 0x0f) - 1) = 3"
    using i1 e1 by simp
  have u2: "unat (((0x00::byte) AND 0x0f) - 1) = 255"
    using i2 e2 by blast
  have v1: "value_loop ((0x54::byte) AND 0x0f) (22 + 1) 0
       (framed (feed frame_power_in (setup_sketch (power_on 0))) frame_power_in []) = Some 916"
  proof -
    have "map (buffer (framed (feed frame_power_in (setup_sketch (power_on 0))) frame_power_in []))
        [22 + 1..<22 + 1 + unat (((0x54::byte) AND 0x0f) - 1)] = [0x00, 0x03, 0x94]"
      unfolding u1 by (subst map_buffer_framed_within) (simp_all add: frame_power_in_def)
    with i1 show ?thesis by simp
  qed
  have v2: "value_loop ((0x00::byte) AND 0x0f) (17 + 1) 0
       (framed (feed frame_claim (setup_sketch (power_on 0))) frame_claim []) = Some 0"
    using value_loop_claim [of frame_claim 0 "[]"] by simp
  show ?thesis
    by (intro conjI h1 h2 e1 e2 u1 u2 v1 v2)
qed

section \<open>A buffer that holds an abandoned transmission\<close>

lemma read_loop_no_end_byte:
  assumes "4 \<le> position m" "position m + int (length body) + 3 \<le> BUFFER_SIZE"
    and "0x1A \<notin> set body"
  shows "read_message_loop (body @ rest) m =
           read_message_loop rest
             (m\<lparr>buffer := store (buffer m) (nat (position m)) body,
                position := position m + int (length body)\<rparr>)"
proof -
  have "\<forall>k. 0 < k \<and> k \<le> length body \<longrightarrow>
           \<not> tail_is_end (store (buffer m) (nat (position m)) (take k body))
                 (nat (position m) + k)"
  proof (intro allI impI)
    fix k assume k: "0 < k \<and> k \<le> length body"
    then have k0: "0 < k" and kn: "k \<le> length body" by simp_all
    have len: "length (take k body) = k"
      using kn by simp
    have idx: "nat (position m) + k - 1 - nat (position m) = k - 1"
      using k0 by arith
    have "nat (position m) \<le> nat (position m) + k - 1 \<and>
          nat (position m) + k - 1 < nat (position m) + k"
      using k0 by arith
    then have "store (buffer m) (nat (position m)) (take k body)
                 (nat (position m) + k - 1) = take k body ! (k - 1)"
      by (simp only: store_apply len idx) simp
    also have "\<dots> = body ! (k - 1)"
      using k0 by simp
    also have "\<dots> \<noteq> 0x1A"
      using assms(3) k0 kn by (metis diff_less less_le_trans nth_mem zero_less_one)
    finally have "store (buffer m) (nat (position m)) (take k body)
                 (nat (position m) + k - 1) \<noteq> 0x1A" .
    then show "\<not> tail_is_end (store (buffer m) (nat (position m)) (take k body))
                 (nat (position m) + k)"
      by (simp add: tail_is_end_def)
  qed
  from read_loop_body[OF assms(1) assms(2) this, of rest] show ?thesis .
qed

lemma stale_fields_facts:
  "length stale_fields = 26" "0x1A \<notin> set stale_fields"
  by (simp_all add: stale_fields_def)

lemma lingering_fields:
  "state lingering = Some ST_read_message" "position lingering = 34"
  "sensor lingering = []" "millis lingering = 30001" "last_state_reset lingering = 0"
  by (simp_all add: lingering_def accumulating_fields)

lemma reachable_lingering: "reachable lingering"
proof -
  let ?a1 = "feed stale_fields accumulating"
  let ?m1 = "?a1\<lparr>buffer := store (buffer ?a1) (nat (position ?a1)) stale_fields,
                 position := position ?a1 + int (length stale_fields)\<rparr>"
  have f: "state ?a1 = Some ST_read_message" "position ?a1 = 8" "\<not> timed_out ?a1"
    "sensor ?a1 = stale_fields"
    by (simp_all add: feed_def accumulating_fields timed_out_def)
  have "read_message_loop (stale_fields @ []) ?a1 = read_message_loop [] ?m1"
    by (rule read_loop_no_end_byte) (simp_all add: f stale_fields_facts BUFFER_SIZE_def)
  then have "read_message ?a1 = Some (?m1\<lparr>sensor := []\<rparr>)"
    by (simp add: read_message_def f(4))
  then have "loop_sketch r ?a1 = Some (?m1\<lparr>sensor := []\<rparr>)" for r
    by (simp add: loop_sketch_def run_current_state_in_time [OF f(1) f(3)] call_state_def)
  with reachable.arrival [OF reachable_accumulating]
  have "reachable (?m1\<lparr>sensor := []\<rparr>)"
    by (rule reachable.tick)
  then have "reachable (?m1\<lparr>sensor := [], millis := 30001\<rparr>)"
    by (rule reachable.timer)
  moreover have "?m1\<lparr>sensor := [], millis := 30001\<rparr> = lingering"
    unfolding lingering_def
    by (rule machine.equality) (simp_all add: feed_def accumulating_fields stale_fields_facts)
  ultimately show ?thesis by simp
qed

lemma abandoned_fields:
  "state abandoned = Some ST_wait_for_start_sequence" "position abandoned = 0"
  "sensor abandoned = []" "\<not> timed_out abandoned"
  "buffer abandoned = store (store (\<lambda>_. 0) 0 START_SEQUENCE) 8 stale_fields"
  by (simp_all add: abandoned_def println_def lingering_fields set_state_position timed_out_def
      set_state_last_state_reset reset_def lingering_def accumulating_def setup_sketch_def
      power_on_def)

lemma reachable_abandoned: "reachable abandoned"
proof -
  have to: "timed_out lingering"
    by (simp add: timed_out_def lingering_fields READ_TIMEOUT_def)
  have "abandoned\<lparr>sensor := []\<rparr> = abandoned"
    by (rule machine.equality) (simp_all add: abandoned_fields)
  then have "wait_for_start_sequence abandoned = Some abandoned"
    by (simp add: wait_for_start_sequence_def abandoned_fields)
  with to have "loop_sketch r lingering = Some abandoned" for r
    by (simp add: loop_sketch_def run_current_state_def timed_out_def lingering_fields
        call_state_def abandoned_def [symmetric] abandoned_fields)
  with reachable_lingering show ?thesis
    by (rule reachable.tick)
qed

lemma frame_bare_pattern_shape:
  "frame_bare_pattern
     = START_SEQUENCE @ [0x77, 0x07, 0x01, 0x00, 0x01, 0x08, 0x00, 0xFF] @ END_SEQUENCE
         @ [0x00, 0x1D, 0x32]"
  by (simp add: frame_bare_pattern_def START_SEQUENCE_def END_SEQUENCE_def)

lemma x25_frame_bare_pattern:
  "x25 [0x1B, 0x1B, 0x1B, 0x1B, 0x01, 0x01, 0x01, 0x01,
     0x77, 0x07, 0x01, 0x00, 0x01, 0x08, 0x00, 0xFF,
     0x1B, 0x1B, 0x1B, 0x1B, 0x1A, 0x00] = 0x321D"
  by (simp add: x25_eval)

lemma framed_abandoned:
  "reachable (framed (feed frame_bare_pattern abandoned) frame_bare_pattern [])"
  "calculated_checksum (framed (feed frame_bare_pattern abandoned) frame_bare_pattern [])
     = given_checksum (framed (feed frame_bare_pattern abandoned) frame_bare_pattern [])"
proof -
  let ?m = "feed frame_bare_pattern abandoned"
  have f: "state ?m = Some ST_wait_for_start_sequence" "position ?m = 0" "\<not> timed_out ?m"
    "sensor ?m = [] @ frame_bare_pattern @ []"
    using abandoned_fields by (simp_all add: feed_def timed_out_def)
  have len: "int (length frame_bare_pattern) \<le> BUFFER_SIZE"
    by (simp add: frame_bare_pattern_def BUFFER_SIZE_def)
  have "ticks 3 r ?m = Some (framed ?m frame_bare_pattern [])" for r
    by (rule framing [OF f(1) f(2) f(3) _ frame_bare_pattern_shape no_early_end len f(4)])
       simp_all
  with reachable.arrival [OF reachable_abandoned]
  show "reachable (framed (feed frame_bare_pattern abandoned) frame_bare_pattern [])"
    by (rule reachable_ticks)
  show "calculated_checksum (framed (feed frame_bare_pattern abandoned) frame_bare_pattern [])
     = given_checksum (framed (feed frame_bare_pattern abandoned) frame_bare_pattern [])"
    by (subst framed_checksums, simp add: frame_bare_pattern_def)
       (subst framed_checksums, simp add: frame_bare_pattern_def,
        simp add: frame_bare_pattern_def x25_frame_bare_pattern)
qed

lemma buffer_framed_abandoned:
  "map (buffer (framed (feed bs abandoned) frame_bare_pattern rest)) [0..<24]
     = frame_bare_pattern"
  "map (buffer (framed (feed bs abandoned) frame_bare_pattern rest)) [24..<34]
     = [0x00, 0x00, 0x00, 0x01, 0x62, 0x1E, 0x52, 0xFF, 0x52, 0x2A]"
  by (simp_all add: framed_fields store_apply feed_def abandoned_fields frame_bare_pattern_def
      stale_fields_def upt_rec nth_append)


section \<open>C9: the walk and the end of the datagram\<close>

lemma nibble_le: "unat (x AND 0x0f :: byte) \<le> 15"
proof -
  have "x AND 0x0f \<le> 0x0f" by (rule word_and_le1)
  then show ?thesis by (simp add: word_le_nat_alt)
qed

lemma nibble_pred_le:
  assumes "x AND 0x0f \<noteq> (0::byte)"
  shows "unat ((x AND 0x0f) - 1) \<le> 14"
proof -
  have "unat ((x AND 0x0f) - 1) = unat (x AND 0x0f) - 1"
    using assms by (rule unat_minus_one)
  with nibble_le [of x] show ?thesis by simp
qed

lemma parse_metric_walk:
  assumes r1: "int (k + n + 62) \<le> BUFFER_SIZE"
    and r2: "int (value_header_at m k n + 1
                + unat ((buffer m (value_header_at m k n) AND 0x0f) - 1)) \<le> BUFFER_SIZE"
  shows "parse_metric m k n =
    (let cp = k + n;
         cp = cp + unat (buffer m cp AND 0x0f);
         cp = cp + unat (buffer m cp AND 0x0f);
         u = buffer m (cp + 1);
         cp = cp + unat (buffer m cp AND 0x0f);
         s = buffer m (cp + 1);
         cp = cp + unat (buffer m cp AND 0x0f);
         len = buffer m cp AND 0x0f
     in Some \<lparr>mv_value = foldl (\<lambda>u b. push_bit 8 u OR ucast b) 0
                   (map (buffer m) [cp + 1..<cp + 1 + unat (len - 1)]),
              mv_unit = u, mv_scaler = s\<rparr>)"
proof -
  define c1 where "c1 = k + n + unat (buffer m (k + n) AND 0x0f)"
  define c2 where "c2 = c1 + unat (buffer m c1 AND 0x0f)"
  define c3 where "c3 = c2 + unat (buffer m c2 AND 0x0f)"
  define c4 where "c4 = c3 + unat (buffer m c3 AND 0x0f)"
  define len where "len = buffer m c4 AND 0x0f"
  have b1: "c1 \<le> k + n + 15" unfolding c1_def using nibble_le [of "buffer m (k + n)"] by simp
  have b2: "c2 \<le> k + n + 30" unfolding c2_def using nibble_le [of "buffer m c1"] b1 by simp
  have b3: "c3 \<le> k + n + 45" unfolding c3_def using nibble_le [of "buffer m c2"] b2 by simp
  have b4: "c4 \<le> k + n + 60" unfolding c4_def using nibble_le [of "buffer m c3"] b3 by simp
  have vh: "value_header_at m k n = c4"
    unfolding value_header_at_def Let_def c1_def [symmetric] c2_def [symmetric]
      c3_def [symmetric] c4_def [symmetric] ..
  have pk: "peek m (k + n) = Some (buffer m (k + n))" "peek m c1 = Some (buffer m c1)"
    "peek m c2 = Some (buffer m c2)" "peek m (c2 + 1) = Some (buffer m (c2 + 1))"
    "peek m c3 = Some (buffer m c3)" "peek m (c3 + 1) = Some (buffer m (c3 + 1))"
    "peek m c4 = Some (buffer m c4)"
    using r1 b1 b2 b3 b4 by (simp_all add: peek_def)
  from r2 have "int (c4 + 1 + unat (len - 1)) \<le> BUFFER_SIZE"
    unfolding vh len_def .
  note vl = value_loop_fold [OF this, of 0 m]
  have "parse_metric m k n =
      Some \<lparr>mv_value = foldl (\<lambda>u b. push_bit 8 u OR ucast b) 0
                   (map (buffer m) [c4 + 1..<c4 + 1 + unat (len - 1)]),
              mv_unit = buffer m (c2 + 1), mv_scaler = buffer m (c3 + 1)\<rparr>"
    unfolding parse_metric_def Let_def c1_def [symmetric] pk bind.bind_lunit
      c2_def [symmetric] c3_def [symmetric] c4_def [symmetric] len_def [symmetric] vl
    by simp
  then show ?thesis
    unfolding Let_def c1_def [symmetric] c2_def [symmetric] c3_def [symmetric] c4_def [symmetric]
      len_def [symmetric] .
qed

lemma parse_metric_window:
  assumes rng: "int (k + n + 76) \<le> BUFFER_SIZE"
    and nz: "buffer m (value_header_at m k n) AND 0x0f \<noteq> 0"
    and ag: "\<And>j. k + n \<le> j \<Longrightarrow> j < k + n + 76 \<Longrightarrow> buffer m' j = buffer m j"
  shows "parse_metric m' k n = parse_metric m k n" "parse_metric m k n \<noteq> None"
proof -
  define c1 where "c1 = k + n + unat (buffer m (k + n) AND 0x0f)"
  define c2 where "c2 = c1 + unat (buffer m c1 AND 0x0f)"
  define c3 where "c3 = c2 + unat (buffer m c2 AND 0x0f)"
  define c4 where "c4 = c3 + unat (buffer m c3 AND 0x0f)"
  define len where "len = buffer m c4 AND 0x0f"
  have b1: "c1 \<le> k + n + 15" "k + n \<le> c1"
    unfolding c1_def using nibble_le [of "buffer m (k + n)"] by simp_all
  have b2: "c2 \<le> k + n + 30" "k + n \<le> c2"
    unfolding c2_def using nibble_le [of "buffer m c1"] b1 by simp_all
  have b3: "c3 \<le> k + n + 45" "k + n \<le> c3"
    unfolding c3_def using nibble_le [of "buffer m c2"] b2 by simp_all
  have b4: "c4 \<le> k + n + 60" "k + n \<le> c4"
    unfolding c4_def using nibble_le [of "buffer m c3"] b3 by simp_all
  have e: "buffer m' (k + n) = buffer m (k + n)" "buffer m' c1 = buffer m c1"
    "buffer m' c2 = buffer m c2" "buffer m' (c2 + 1) = buffer m (c2 + 1)"
    "buffer m' c3 = buffer m c3" "buffer m' (c3 + 1) = buffer m (c3 + 1)"
    "buffer m' c4 = buffer m c4"
    using b1 b2 b3 b4 by (simp_all add: ag)
  have vh: "value_header_at m k n = c4"
    unfolding value_header_at_def Let_def c1_def [symmetric] c2_def [symmetric]
      c3_def [symmetric] c4_def [symmetric] ..
  have vh': "value_header_at m' k n = c4"
    unfolding value_header_at_def Let_def e c1_def [symmetric] c2_def [symmetric]
      c3_def [symmetric] c4_def [symmetric] ..
  from nz have "len \<noteq> 0" unfolding vh len_def .
  then have l14: "unat (len - 1) \<le> 14"
    unfolding len_def by (rule nibble_pred_le)
  have top: "c4 + 1 + unat (len - 1) \<le> k + n + 76"
    using b4 l14 by linarith
  have r1: "int (k + n + 62) \<le> BUFFER_SIZE" using rng by simp
  have r2: "int (value_header_at m k n + 1
                + unat ((buffer m (value_header_at m k n) AND 0x0f) - 1)) \<le> BUFFER_SIZE"
    unfolding vh len_def [symmetric] using top rng by linarith
  have r2': "int (value_header_at m' k n + 1
                + unat ((buffer m' (value_header_at m' k n) AND 0x0f) - 1)) \<le> BUFFER_SIZE"
    unfolding vh' e len_def [symmetric] using top rng by linarith
  have emap: "map (buffer m') [c4 + 1..<c4 + 1 + unat (len - 1)]
      = map (buffer m) [c4 + 1..<c4 + 1 + unat (len - 1)]"
  proof (rule map_cong [OF refl])
    fix x assume "x \<in> set [c4 + 1..<c4 + 1 + unat (len - 1)]"
    then have "c4 + 1 \<le> x \<and> x < c4 + 1 + unat (len - 1)"
      by (simp only: set_upt atLeastLessThan_iff)
    with top b4 have "k + n \<le> x" "x < k + n + 76" by linarith+
    then show "buffer m' x = buffer m x" by (rule ag)
  qed
  have p': "parse_metric m' k n =
      Some \<lparr>mv_value = foldl (\<lambda>u b. push_bit 8 u OR ucast b) 0
                   (map (buffer m) [c4 + 1..<c4 + 1 + unat (len - 1)]),
              mv_unit = buffer m (c2 + 1), mv_scaler = buffer m (c3 + 1)\<rparr>"
    unfolding parse_metric_walk [OF r1 r2'] Let_def e c1_def [symmetric]
      c2_def [symmetric] c3_def [symmetric] c4_def [symmetric] len_def [symmetric] emap ..
  have p: "parse_metric m k n =
      Some \<lparr>mv_value = foldl (\<lambda>u b. push_bit 8 u OR ucast b) 0
                   (map (buffer m) [c4 + 1..<c4 + 1 + unat (len - 1)]),
              mv_unit = buffer m (c2 + 1), mv_scaler = buffer m (c3 + 1)\<rparr>"
    unfolding parse_metric_walk [OF r1 r2] Let_def c1_def [symmetric]
      c2_def [symmetric] c3_def [symmetric] c4_def [symmetric] len_def [symmetric] ..
  from p p' show "parse_metric m' k n = parse_metric m k n" by simp
  from p show "parse_metric m k n \<noteq> None" by simp
qed

lemma parse_metric_abandoned:
  "parse_metric (framed (feed bs abandoned) frame_bare_pattern rest) 8 8
     = Some \<lparr>mv_value = 42, mv_unit = 0x1E, mv_scaler = 0xFF\<rparr>"
proof -
  have pk: "peek (framed (feed bs abandoned) frame_bare_pattern rest) 16 = Some 0x1B"
    "peek (framed (feed bs abandoned) frame_bare_pattern rest) 27 = Some 0x01"
    "peek (framed (feed bs abandoned) frame_bare_pattern rest) 28 = Some 0x62"
    "peek (framed (feed bs abandoned) frame_bare_pattern rest) 29 = Some 0x1E"
    "peek (framed (feed bs abandoned) frame_bare_pattern rest) 30 = Some 0x52"
    "peek (framed (feed bs abandoned) frame_bare_pattern rest) 31 = Some 0xFF"
    "peek (framed (feed bs abandoned) frame_bare_pattern rest) 32 = Some 0x52"
    "peek (framed (feed bs abandoned) frame_bare_pattern rest) 33 = Some 0x2A"
    by (simp_all add: peek_def BUFFER_SIZE_def framed_fields store_apply feed_def
        abandoned_fields frame_bare_pattern_def stale_fields_def nth_append)
  show ?thesis
    by (simp add: parse_metric_def pk value_loop_step value_loop_stop)
qed


lemma parse_metric_poked:
  "parse_metric ((framed (feed bs abandoned) frame_bare_pattern rest)
          \<lparr>buffer := (buffer (framed (feed bs abandoned) frame_bare_pattern rest))(33 := 0x07)\<rparr>)
      8 8
     = Some \<lparr>mv_value = 7, mv_unit = 0x1E, mv_scaler = 0xFF\<rparr>"
proof -
  let ?M = "(framed (feed bs abandoned) frame_bare_pattern rest)
          \<lparr>buffer := (buffer (framed (feed bs abandoned) frame_bare_pattern rest))(33 := 0x07)\<rparr>"
  have pk: "peek ?M 16 = Some 0x1B" "peek ?M 27 = Some 0x01" "peek ?M 28 = Some 0x62"
    "peek ?M 29 = Some 0x1E" "peek ?M 30 = Some 0x52" "peek ?M 31 = Some 0xFF"
    "peek ?M 32 = Some 0x52" "peek ?M 33 = Some 0x07"
    by (simp_all add: peek_def BUFFER_SIZE_def framed_fields store_apply feed_def
        abandoned_fields frame_bare_pattern_def stale_fields_def nth_append)
  show ?thesis
    by (simp add: parse_metric_def pk value_loop_step value_loop_stop)
qed

lemma value_header_abandoned:
  "value_header_at (framed (feed bs abandoned) frame_bare_pattern rest) 8 8 = 32"
  "buffer (framed (feed bs abandoned) frame_bare_pattern rest) 32 = 0x52"
  by (simp_all add: value_header_at_def Let_def framed_fields store_apply feed_def
      abandoned_fields frame_bare_pattern_def stale_fields_def nth_append)

text \<open>
  C9 says that the walk never reads at or beyond the end of the datagram and reports a
  \<open>FieldUnderrun\<close> instead. \<open>frame_bare_pattern\<close> (24 bytes, checksum correct) ends right
  after the first pattern, which stands at the offsets 8 to 15. Received by the reachable
  sketch \<open>abandoned\<close>, it is framed and its checksum is valid. \<open>parse_metric\<close> at offset 8 is
  the walk that \<open>process_message\<close> performs when the search reports the pattern there (what
  the search reports depends on the memory at the needle's address, see \<open>ram\<close>). The walk
  starts at offset 16, takes the byte \<open>1B\<close> of the end sequence for the status field and
  moves to offset 27, beyond the end of the datagram, and goes on with what the abandoned
  transmission left there: the time field at 27, the unit field at 28, the scaler field at
  30 and the value field at 32, every one with a length that is not 0. It yields unit
  \<open>0x1E\<close>, scaler -1 and the value 42 read at offset 33; no error is raised. With another
  byte at offset 33 and the same 24 bytes of datagram the value is that byte.
\<close>

theorem C9_counterexample:
  "reachable (framed (feed frame_bare_pattern abandoned) frame_bare_pattern []) \<and>
   state (framed (feed frame_bare_pattern abandoned) frame_bare_pattern [])
     = Some ST_process_message \<and>
   position (framed (feed frame_bare_pattern abandoned) frame_bare_pattern []) = 24 \<and>
   calculated_checksum (framed (feed frame_bare_pattern abandoned) frame_bare_pattern [])
     = given_checksum (framed (feed frame_bare_pattern abandoned) frame_bare_pattern []) \<and>
   map (buffer (framed (feed frame_bare_pattern abandoned) frame_bare_pattern [])) [0..<24]
     = frame_bare_pattern \<and>
   map (buffer (framed (feed frame_bare_pattern abandoned) frame_bare_pattern [])) [8..<16]
     = snd (METRICS ! 0) \<and>
   map (buffer (framed (feed frame_bare_pattern abandoned) frame_bare_pattern [])) [24..<34]
     = [0x00, 0x00, 0x00, 0x01, 0x62, 0x1E, 0x52, 0xFF, 0x52, 0x2A] \<and>
   parse_metric (framed (feed frame_bare_pattern abandoned) frame_bare_pattern []) 8
       (length (snd (METRICS ! 0)))
     = Some \<lparr>mv_value = 42, mv_unit = 0x1E, mv_scaler = 0xFF\<rparr> \<and>
   map (buffer ((framed (feed frame_bare_pattern abandoned) frame_bare_pattern [])
          \<lparr>buffer := (buffer (framed (feed frame_bare_pattern abandoned)
                                 frame_bare_pattern []))(33 := 0x07)\<rparr>)) [0..<24]
     = frame_bare_pattern \<and>
   parse_metric ((framed (feed frame_bare_pattern abandoned) frame_bare_pattern [])
          \<lparr>buffer := (buffer (framed (feed frame_bare_pattern abandoned)
                                 frame_bare_pattern []))(33 := 0x07)\<rparr>) 8
       (length (snd (METRICS ! 0)))
     = Some \<lparr>mv_value = 7, mv_unit = 0x1E, mv_scaler = 0xFF\<rparr>"
proof -
  let ?M = "framed (feed frame_bare_pattern abandoned) frame_bare_pattern []"
  have l0: "length (snd (METRICS ! 0)) = 8"
    by (simp add: METRICS_def)
  have pos: "position ?M = 24"
    by (simp add: framed_fields frame_bare_pattern_def)
  have pat: "map (buffer ?M) [8..<16] = snd (METRICS ! 0)"
    by (subst map_buffer_framed_within) (simp_all add: frame_bare_pattern_def METRICS_def)
  have pm: "parse_metric ?M 8 (length (snd (METRICS ! 0)))
     = Some \<lparr>mv_value = 42, mv_unit = 0x1E, mv_scaler = 0xFF\<rparr>"
    unfolding l0 by (rule parse_metric_abandoned)
  have same: "map (buffer (?M\<lparr>buffer := (buffer ?M)(33 := 0x07)\<rparr>)) [0..<24]
     = frame_bare_pattern"
    using buffer_framed_abandoned(1) [of frame_bare_pattern "[]"] by simp
  have pp: "parse_metric (?M\<lparr>buffer := (buffer ?M)(33 := 0x07)\<rparr>) 8
       (length (snd (METRICS ! 0)))
     = Some \<lparr>mv_value = 7, mv_unit = 0x1E, mv_scaler = 0xFF\<rparr>"
    unfolding l0 by (rule parse_metric_poked)
  show ?thesis
    by (intro conjI framed_abandoned framed_fields(1) pos buffer_framed_abandoned pat pm same pp)
qed

text \<open>
  C9, amended: the walk makes no comparison with the end of the datagram. When a pattern
  of \<open>n\<close> bytes was found at offset \<open>k\<close>, the length in the header of the value field is not
  0 and \<open>k + n + 76\<close> does not exceed the size of the buffer, the walk yields a metric value
  (there is no decode error), the result does not depend on \<open>position\<close>, the length of the
  datagram, and it depends on the buffer only through the 76 bytes after the pattern,
  whether they belong to the datagram or not.
\<close>

theorem C9_walk_without_bounds:
  assumes "int (k + n + 76) \<le> BUFFER_SIZE"
    and "buffer m (value_header_at m k n) AND 0x0f \<noteq> 0"
  shows "parse_metric m k n \<noteq> None \<and>
    parse_metric (m\<lparr>position := L\<rparr>) k n = parse_metric m k n \<and>
    ((\<forall>j. k + n \<le> j \<and> j < k + n + 76 \<longrightarrow> buffer m' j = buffer m j)
       \<longrightarrow> parse_metric m' k n = parse_metric m k n)"
proof (intro conjI impI)
  show "parse_metric m k n \<noteq> None"
    by (rule parse_metric_window(2) [OF assms, of m]) simp
  show "parse_metric (m\<lparr>position := L\<rparr>) k n = parse_metric m k n"
    by (rule parse_metric_window(1) [OF assms]) simp
  assume "\<forall>j. k + n \<le> j \<and> j < k + n + 76 \<longrightarrow> buffer m' j = buffer m j"
  then show "parse_metric m' k n = parse_metric m k n"
    by (intro parse_metric_window(1) [OF assms]) simp
qed

text \<open>
  The amended C9 at \<open>frame_bare_pattern\<close> received by \<open>abandoned\<close>: the datagram has 24
  bytes and the header of the value field is the byte \<open>52\<close> at offset 32; the result is the
  same when \<open>position\<close> is 3840 and when the byte at offset 92, the first after the 76, is
  another.
\<close>

theorem C9_walk_without_bounds_witness:
  "int (8 + 8 + 76) \<le> BUFFER_SIZE \<and>
   buffer (framed (feed frame_bare_pattern abandoned) frame_bare_pattern [])
       (value_header_at (framed (feed frame_bare_pattern abandoned) frame_bare_pattern []) 8 8)
     AND 0x0f \<noteq> 0 \<and>
   position (framed (feed frame_bare_pattern abandoned) frame_bare_pattern []) = 24 \<and>
   parse_metric (framed (feed frame_bare_pattern abandoned) frame_bare_pattern []) 8 8 \<noteq> None \<and>
   parse_metric ((framed (feed frame_bare_pattern abandoned) frame_bare_pattern [])
                   \<lparr>position := 3840\<rparr>) 8 8
     = parse_metric (framed (feed frame_bare_pattern abandoned) frame_bare_pattern []) 8 8 \<and>
   map (buffer ((framed (feed frame_bare_pattern abandoned) frame_bare_pattern [])
          \<lparr>buffer := (buffer (framed (feed frame_bare_pattern abandoned)
                                 frame_bare_pattern []))(92 := 0xFF)\<rparr>)) [8 + 8..<8 + 8 + 76]
     = map (buffer (framed (feed frame_bare_pattern abandoned) frame_bare_pattern []))
         [8 + 8..<8 + 8 + 76] \<and>
   parse_metric ((framed (feed frame_bare_pattern abandoned) frame_bare_pattern [])
          \<lparr>buffer := (buffer (framed (feed frame_bare_pattern abandoned)
                                 frame_bare_pattern []))(92 := 0xFF)\<rparr>) 8 8
     = parse_metric (framed (feed frame_bare_pattern abandoned) frame_bare_pattern []) 8 8"
proof -
  let ?M = "framed (feed frame_bare_pattern abandoned) frame_bare_pattern []"
  let ?M' = "?M\<lparr>buffer := (buffer ?M)(92 := 0xFF)\<rparr>"
  have h: "int (8 + 8 + 76) \<le> BUFFER_SIZE" by (simp add: BUFFER_SIZE_def)
  have nz: "buffer ?M (value_header_at ?M 8 8) AND 0x0f \<noteq> 0"
    unfolding value_header_abandoned by simp
  have pos: "position ?M = 24"
    by (simp add: framed_fields frame_bare_pattern_def)
  have ag: "\<forall>j. 8 + 8 \<le> j \<and> j < 8 + 8 + 76 \<longrightarrow> buffer ?M' j = buffer ?M j"
    by simp
  have d: "map (buffer ?M') [8 + 8..<8 + 8 + 76] = map (buffer ?M) [8 + 8..<8 + 8 + 76]"
  proof (rule map_cong [OF refl])
    fix x :: nat assume "x \<in> set [8 + 8..<8 + 8 + 76]"
    then have "8 + 8 \<le> x \<and> x < 8 + 8 + 76"
      by (simp only: set_upt atLeastLessThan_iff)
    with ag show "buffer ?M' x = buffer ?M x" by blast
  qed
  note inst = C9_walk_without_bounds [OF h nz, of 3840 ?M']
  from inst have a: "parse_metric ?M 8 8 \<noteq> None"
    by (rule conjunct1)
  from inst have b: "parse_metric (?M\<lparr>position := 3840\<rparr>) 8 8 = parse_metric ?M 8 8"
    by blast
  from inst ag have c: "parse_metric ?M' 8 8 = parse_metric ?M 8 8"
    by blast
  show ?thesis
    by (intro conjI h nz pos a b c d)
qed

section \<open>Doubles that hold integers\<close>










section \<open>C7: the number that is published\<close>




end
